theory Spec2Isabelle
  imports Complex_Main "HOL-Library.Word" "HOL-Library.AList" "HOL-Library.Multiset"
begin

unbundle bit_operations_syntax

section \<open>Data model of Catchonika (src/js/catchonika.js, v1.3.0)\<close>

text \<open>
  Timestamps are JavaScript numbers holding milliseconds (\<^verbatim>\<open>performance.now()\<close> gives
  fractions of a millisecond); they are modelled as \<^typ>\<open>real\<close>. The capture and
  reconstruction code only compares them and takes \<^verbatim>\<open>Math.max\<close>/\<^verbatim>\<open>Math.min\<close>.

  A value read from the message bytes is a byte or \<^verbatim>\<open>undefined\<close> (a read past the end
  of the array); \<^verbatim>\<open>parseInt\<close> of the text \<^verbatim>\<open>undefined\<close> or \<^verbatim>\<open>NaN\<close> is \<^verbatim>\<open>NaN\<close>.
\<close>

datatype jsnum = Num nat | Undefined | NaN

text \<open>The map key \<^verbatim>\<open>`${ch}:${note}`\<close>: the channel and the note, printed and joined.\<close>

type_synonym key = "nat \<times> jsnum"

text \<open>\<^verbatim>\<open>parseInt(key.split(":")[1], 10)\<close>\<close>

fun parseNote :: "key \<Rightarrow> jsnum" where
  "parseNote (c, Num n) = Num n"
| "parseNote (c, Undefined) = NaN"
| "parseNote (c, NaN) = NaN"

text \<open>\<^verbatim>\<open>parseInt(key.split(":")[0], 10)\<close>: the channel is always a number.\<close>

fun parseCh :: "key \<Rightarrow> nat" where
  "parseCh (c, n) = c"

record source =
  inputId :: string
  inputName :: string

text \<open>
  The entries of \<^verbatim>\<open>this._events\<close>: objects \<^verbatim>\<open>{t, type, ch, ...}\<close> whose \<^verbatim>\<open>type\<close> is one of
  \<^verbatim>\<open>noteon\<close>, \<^verbatim>\<open>noteoff\<close>, \<^verbatim>\<open>noteoff_deferred\<close>, \<^verbatim>\<open>cc\<close>, \<^verbatim>\<open>pitchbend\<close>, \<^verbatim>\<open>raw\<close>.
  Arguments: time, channel, then note and velocity / controller and value / bend value /
  bytes, then the input device.
\<close>

datatype event =
    NoteOn real nat jsnum nat source
  | NoteOff real nat jsnum source
  | NoteOffDeferred real nat jsnum source
  | ControlChange real nat jsnum nat source
  | PitchBend real nat int source
  | Raw real nat "8 word list" source

fun ev_t :: "event \<Rightarrow> real" where
  "ev_t (NoteOn t c n v src) = t"
| "ev_t (NoteOff t c n src) = t"
| "ev_t (NoteOffDeferred t c n src) = t"
| "ev_t (ControlChange t c cc val src) = t"
| "ev_t (PitchBend t c b src) = t"
| "ev_t (Raw t c bs src) = t"

text \<open>The reconstructed note \<^verbatim>\<open>{ch, note, startMs, endMs, vel}\<close>.\<close>

record note_interval =
  ni_ch :: nat
  ni_note :: jsnum
  startMs :: real
  endMs :: real
  ni_vel :: nat

text \<open>A JavaScript \<^verbatim>\<open>Set\<close> keeps insertion order; \<^verbatim>\<open>add\<close> of a member changes nothing.\<close>

definition set_add :: "'a \<Rightarrow> 'a list \<Rightarrow> 'a list" where
  "set_add k ks = (if k \<in> set ks then ks else ks @ [k])"

section \<open>Note reconstruction: \<^verbatim>\<open>_reconstructNotes\<close>\<close>

text \<open>
  The local maps of \<^verbatim>\<open>_reconstructNotes\<close>. \<^verbatim>\<open>active\<close> is iterated at the end, so it is an
  association list in insertion order (\<^const>\<open>AList.update\<close> replaces in place or appends,
  as \<^verbatim>\<open>Map.set\<close> does); \<^verbatim>\<open>sustain\<close> and \<^verbatim>\<open>pending\<close> are only looked up.
\<close>

record rstate =
  r_active :: "(key \<times> (real \<times> nat)) list"
  r_sustain :: "nat \<rightharpoonup> bool"
  r_pending :: "nat \<rightharpoonup> key list"
  r_notes :: "note_interval list"

definition r_init :: rstate where
  "r_init = \<lparr>r_active = [], r_sustain = Map.empty, r_pending = Map.empty, r_notes = []\<rparr>"

text \<open>\<^verbatim>\<open>pushNote\<close>: clamp both ends to the window, keep the note only if it has a length.\<close>

definition pushNote ::
  "real \<Rightarrow> real \<Rightarrow> nat \<Rightarrow> jsnum \<Rightarrow> real \<Rightarrow> real \<Rightarrow> nat \<Rightarrow> note_interval list \<Rightarrow> note_interval list"
where
  "pushNote windowStart windowEnd c n tOn tOff v notes =
     (let s = max windowStart (min windowEnd tOn);
          e = max windowStart (min windowEnd tOff)
      in if e > s
         then notes @ [\<lparr>ni_ch = c, ni_note = n, startMs = s, endMs = e, ni_vel = v\<rparr>]
         else notes)"

text \<open>\<^verbatim>\<open>ensureSet(pending, ch)\<close>: the set stored for the channel, created empty if absent.\<close>

definition ensureSet :: "(nat \<rightharpoonup> key list) \<Rightarrow> nat \<Rightarrow> key list" where
  "ensureSet m c = (case m c of None \<Rightarrow> [] | Some ks \<Rightarrow> ks)"

text \<open>The \<^verbatim>\<open>keys.forEach\<close> of the pedal release: close every pending key that is active.\<close>

fun flushKeys :: "real \<Rightarrow> real \<Rightarrow> nat \<Rightarrow> real \<Rightarrow> key list \<Rightarrow> rstate \<Rightarrow> rstate" where
  "flushKeys ws we c t [] st = st"
| "flushKeys ws we c t (k # ks) st =
     (case map_of (r_active st) k of
        None \<Rightarrow> flushKeys ws we c t ks st
      | Some (tOn, v) \<Rightarrow>
          flushKeys ws we c t ks
            (st\<lparr>r_notes := pushNote ws we c (parseNote k) tOn t v (r_notes st),
                r_active := AList.delete k (r_active st)\<rparr>))"

text \<open>The \<^verbatim>\<open>noteoff\<close> / \<^verbatim>\<open>noteoff_deferred\<close> branch of the replay loop.\<close>

definition closeNote :: "real \<Rightarrow> real \<Rightarrow> real \<Rightarrow> nat \<Rightarrow> jsnum \<Rightarrow> rstate \<Rightarrow> rstate" where
  "closeNote ws we t c n st =
     (case map_of (r_active st) (c, n) of
        None \<Rightarrow> st
      | Some (tOn, v) \<Rightarrow>
          if r_sustain st c = Some True
          then st\<lparr>r_pending := (r_pending st)(c \<mapsto> set_add (c, n) (ensureSet (r_pending st) c))\<rparr>
          else st\<lparr>r_notes := pushNote ws we c n tOn t v (r_notes st),
                  r_active := AList.delete (c, n) (r_active st)\<rparr>)"

text \<open>One turn of \<^verbatim>\<open>for (const e of events)\<close>.\<close>

fun replayEvent :: "real \<Rightarrow> real \<Rightarrow> event \<Rightarrow> rstate \<Rightarrow> rstate" where
  "replayEvent ws we (ControlChange t c cc val src) st =
     (if cc = Num 64 then
        (let down = (val \<ge> 64);
             was = (r_sustain st c = Some True);
             st1 = st\<lparr>r_sustain := (r_sustain st)(c \<mapsto> down)\<rparr>
         in if was \<and> \<not> down
            then (let keys = ensureSet (r_pending st1) c;
                      st2 = flushKeys ws we c t keys st1
                  in st2\<lparr>r_pending := (r_pending st2)(c \<mapsto> [])\<rparr>)
            else st1)
      else st)"
| "replayEvent ws we (NoteOn t c n v src) st =
     st\<lparr>r_active := AList.update (c, n) (t, v) (r_active st)\<rparr>"
| "replayEvent ws we (NoteOff t c n src) st = closeNote ws we t c n st"
| "replayEvent ws we (NoteOffDeferred t c n src) st = closeNote ws we t c n st"
| "replayEvent ws we (PitchBend t c b src) st = st"
| "replayEvent ws we (Raw t c bs src) st = st"

definition replay :: "real \<Rightarrow> real \<Rightarrow> event list \<Rightarrow> rstate \<Rightarrow> rstate" where
  "replay ws we evs st = foldl (\<lambda>s e. replayEvent ws we e s) st evs"

text \<open>The loop over \<^verbatim>\<open>active.entries()\<close>: every note still open ends at the window's end.\<close>

definition closeOpen ::
  "real \<Rightarrow> real \<Rightarrow> (key \<times> (real \<times> nat)) list \<Rightarrow> note_interval list \<Rightarrow> note_interval list"
where
  "closeOpen ws we act notes =
     foldl (\<lambda>ns (k, (tOn, v)). pushNote ws we (parseCh k) (parseNote k) tOn we v ns) notes act"

text \<open>All notes of a reconstruction, in the order they are pushed, before grouping.\<close>

definition allNotes :: "event list \<Rightarrow> real \<Rightarrow> real \<Rightarrow> note_interval list" where
  "allNotes evs ws we =
     (let st = replay ws we evs r_init in closeOpen ws we (r_active st) (r_notes st))"

text \<open>The track key: \<^verbatim>\<open>`ch-${ch}`\<close> when grouping by channel, \<^verbatim>\<open>main\<close> otherwise.\<close>

datatype trackKey = TrackMain | TrackCh nat

definition trackKeyFor :: "bool \<Rightarrow> nat \<Rightarrow> trackKey" where
  "trackKeyFor grp c = (if grp then TrackCh c else TrackMain)"

definition addToTrack ::
  "bool \<Rightarrow> (trackKey \<times> note_interval list) list \<Rightarrow> note_interval
     \<Rightarrow> (trackKey \<times> note_interval list) list"
where
  "addToTrack grp byTrack n =
     (let k = trackKeyFor grp (ni_ch n);
          old = (case map_of byTrack k of None \<Rightarrow> [] | Some ns \<Rightarrow> ns)
      in AList.update k (old @ [n]) byTrack)"

text \<open>
  \<^verbatim>\<open>_reconstructNotes(events, windowStart, windowEnd)\<close>; \<^verbatim>\<open>grp\<close> is
  \<^verbatim>\<open>this.settings.groupByChannel\<close>. \<^verbatim>\<open>Array.prototype.sort\<close> is stable, as \<^const>\<open>sort_key\<close> is.
\<close>

definition reconstructNotes ::
  "bool \<Rightarrow> event list \<Rightarrow> real \<Rightarrow> real \<Rightarrow> (trackKey \<times> note_interval list) list"
where
  "reconstructNotes grp evs ws we =
     map (\<lambda>(k, ns). (k, sort_key startMs ns))
         (foldl (addToTrack grp) [] (allNotes evs ws we))"

section \<open>Live capture: the state of a \<^verbatim>\<open>Catchonika\<close> object\<close>

record settings_t =
  bufferMinutes :: real
  defaultBpm :: real
  groupByChannel :: bool
  takeIdleSeconds :: real

text \<open>An entry of \<^verbatim>\<open>this._active\<close>: \<^verbatim>\<open>{tOn, vel, inputId}\<close>.\<close>

record active_note =
  an_tOn :: real
  an_vel :: nat
  an_inputId :: string

text \<open>\<^verbatim>\<open>this._currentTake\<close>: \<^verbatim>\<open>{startMs, lastActivityMs}\<close>; a closed take: \<^verbatim>\<open>{startMs, endMs}\<close>.\<close>

record open_take =
  ot_startMs :: real
  lastActivityMs :: real

record take =
  tk_startMs :: real
  tk_endMs :: real

text \<open>
  The fields of the object that the capture code reads and writes. \<^verbatim>\<open>_idleTimer\<close> is
  \<^verbatim>\<open>None\<close> for \<^verbatim>\<open>null\<close> and otherwise holds the delay in milliseconds the pending
  \<^verbatim>\<open>setTimeout\<close> was armed with; \<^verbatim>\<open>_persistTimer\<close> records whether a save is scheduled.
  \<^verbatim>\<open>_active\<close> and \<^verbatim>\<open>_sustain\<close> are only looked up, never iterated. The calls that only
  paint the page (\<^verbatim>\<open>_renderTakesList\<close>, \<^verbatim>\<open>_status\<close>) have no counterpart.
\<close>

record catchonika =
  settings :: settings_t
  events :: "event list"
  active :: "key \<rightharpoonup> active_note"
  sustain :: "nat \<rightharpoonup> bool"
  pendingRelease :: "nat \<rightharpoonup> key list"
  takes :: "take list"
  currentTake :: "open_take option"
  idleTimer :: "real option"
  persistTimer :: bool

definition schedulePersist :: "catchonika \<Rightarrow> catchonika" where
  "schedulePersist s = s\<lparr>persistTimer := True\<rparr>"

definition resetIdleTimer :: "catchonika \<Rightarrow> catchonika" where
  "resetIdleTimer s = s\<lparr>idleTimer := Some (takeIdleSeconds (settings s) * 1000)\<rparr>"

definition startTake :: "real \<Rightarrow> catchonika \<Rightarrow> catchonika" where
  "startTake t s =
     (case currentTake s of
        Some ct \<Rightarrow> s
      | None \<Rightarrow>
          schedulePersist
            (resetIdleTimer (s\<lparr>currentTake := Some \<lparr>ot_startMs = t, lastActivityMs = t\<rparr>\<rparr>)))"

text \<open>\<^verbatim>\<open>_endTake\<close>, the callback of the idle timer.\<close>

definition endTake :: "catchonika \<Rightarrow> catchonika" where
  "endTake s =
     (case currentTake s of
        None \<Rightarrow> s
      | Some ct \<Rightarrow>
          schedulePersist
            (s\<lparr>idleTimer := None,
               takes := takes s @ [\<lparr>tk_startMs = ot_startMs ct, tk_endMs = lastActivityMs ct\<rparr>],
               currentTake := None\<rparr>))"

definition markActivity :: "real \<Rightarrow> catchonika \<Rightarrow> catchonika" where
  "markActivity t s =
     (case currentTake s of
        None \<Rightarrow> s
      | Some ct \<Rightarrow> resetIdleTimer (s\<lparr>currentTake := Some (ct\<lparr>lastActivityMs := t\<rparr>)\<rparr>))"

text \<open>\<^verbatim>\<open>sustainDown(c)\<close>: \<^verbatim>\<open>this._sustain.get(c) === true\<close>.\<close>

definition sustainDown :: "catchonika \<Rightarrow> nat \<Rightarrow> bool" where
  "sustainDown s c = (sustain s c = Some True)"

text \<open>
  \<^verbatim>\<open>pendKeySet(c)\<close> stores an empty set for a channel that has none and returns the
  channel's set: \<^const>\<open>ensureSet\<close> gives the set, and every use below stores the result.
\<close>

definition handleNoteOff :: "real \<Rightarrow> nat \<Rightarrow> jsnum \<Rightarrow> source \<Rightarrow> catchonika \<Rightarrow> catchonika" where
  "handleNoteOff t c n src s =
     (case active s (c, n) of
        None \<Rightarrow> schedulePersist (s\<lparr>events := events s @ [NoteOff t c n src]\<rparr>)
      | Some a \<Rightarrow>
          schedulePersist
            (if sustainDown s c
             then s\<lparr>pendingRelease :=
                      (pendingRelease s)(c \<mapsto> set_add (c, n) (ensureSet (pendingRelease s) c)),
                    events := events s @ [NoteOffDeferred t c n src]\<rparr>
             else s\<lparr>events := events s @ [NoteOff t c n src],
                    active := (active s)((c, n) := None)\<rparr>))"

text \<open>The \<^verbatim>\<open>keys.forEach\<close> of the pedal release in \<^verbatim>\<open>_onMIDIMessage\<close>.\<close>

fun flushPending :: "real \<Rightarrow> nat \<Rightarrow> source \<Rightarrow> key list \<Rightarrow> catchonika \<Rightarrow> catchonika" where
  "flushPending t c src [] s = s"
| "flushPending t c src (k # ks) s =
     (case active s k of
        None \<Rightarrow> flushPending t c src ks s
      | Some a \<Rightarrow>
          flushPending t c src ks
            (s\<lparr>events := events s @ [NoteOff t c (parseNote k) src],
               active := (active s)(k := None)\<rparr>))"

text \<open>\<^verbatim>\<open>data[i]\<close> on the message bytes (a \<^verbatim>\<open>Uint8Array\<close>): \<^verbatim>\<open>undefined\<close> past the end.\<close>

definition byteAt :: "8 word list \<Rightarrow> nat \<Rightarrow> jsnum" where
  "byteAt data i = (if i < length data then Num (unat (data ! i)) else Undefined)"

text \<open>\<^verbatim>\<open>data[i] ?? 0\<close> and \<^verbatim>\<open>data[i] || 0\<close>: both give 0 for a missing byte.\<close>

definition byteOr0 :: "8 word list \<Rightarrow> nat \<Rightarrow> nat" where
  "byteOr0 data i = (if i < length data then unat (data ! i) else 0)"

text \<open>
  \<^verbatim>\<open>_onMIDIMessage(input, message)\<close>. \<^verbatim>\<open>t\<close> is the clock reading \<^verbatim>\<open>ts() - this._start\<close>,
  \<^verbatim>\<open>src\<close> is \<^verbatim>\<open>input.id\<close> and \<^verbatim>\<open>input.name || ""\<close>, \<^verbatim>\<open>data\<close> is \<^verbatim>\<open>message.data\<close>
  (\<^verbatim>\<open>None\<close> when it is missing).
\<close>

definition onControlChange ::
  "real \<Rightarrow> nat \<Rightarrow> source \<Rightarrow> 8 word list \<Rightarrow> catchonika \<Rightarrow> catchonika"
where
  "onControlChange t c src data s =
     (let cc = byteAt data 1;
          val = byteOr0 data 2;
          s1 = (if currentTake s = None \<and> cc \<noteq> Num 64 then startTake t s else s);
          s2 = schedulePersist (s1\<lparr>events := events s1 @ [ControlChange t c cc val src]\<rparr>)
      in if cc = Num 64 then
           (let wasDown = sustainDown s2 c;
                nowDown = (val \<ge> 64);
                s3 = s2\<lparr>sustain := (sustain s2)(c \<mapsto> nowDown)\<rparr>;
                s4 = (if \<not> wasDown \<and> nowDown then startTake t s3 else s3)
            in if wasDown \<and> \<not> nowDown
               then (let keys = ensureSet (pendingRelease s4) c;
                         s5 = flushPending t c src keys s4
                     in schedulePersist (s5\<lparr>pendingRelease := (pendingRelease s5)(c \<mapsto> [])\<rparr>))
               else s4)
         else s2)"

definition onMIDIMessage ::
  "real \<Rightarrow> source \<Rightarrow> 8 word list option \<Rightarrow> catchonika \<Rightarrow> catchonika"
where
  "onMIDIMessage t src msg s0 =
     (case msg of
        None \<Rightarrow> s0
      | Some [] \<Rightarrow> s0
      | Some (status # rest) \<Rightarrow>
          (let data = status # rest;
               type = status AND 0xF0;
               c = unat (status AND 0x0F) + 1;
               s = markActivity t s0
           in if type = 0x90 then
                (let n = byteAt data 1;
                     v = byteOr0 data 2
                 in if v > 0 then
                      (let s1 = (if currentTake s = None then startTake t s else s)
                       in schedulePersist
                            (s1\<lparr>events := events s1 @ [NoteOn t c n v src],
                                active := (active s1)((c, n) \<mapsto>
                                  \<lparr>an_tOn = t, an_vel = v, an_inputId = inputId src\<rparr>)\<rparr>))
                    else handleNoteOff t c n src s)
              else if type = 0x80 then handleNoteOff t c (byteAt data 1) src s
              else if type = 0xB0 then onControlChange t c src data s
              else if type = 0xE0 then
                (let s1 = (if currentTake s = None then startTake t s else s);
                     lsb = byteOr0 data 1;
                     msb = byteOr0 data 2;
                     value = int (push_bit 7 msb OR lsb) - 8192
                 in schedulePersist (s1\<lparr>events := events s1 @ [PitchBend t c value src]\<rparr>))
              else schedulePersist (s\<lparr>events := events s @ [Raw t c data src]\<rparr>)))"

text \<open>
  \<^verbatim>\<open>_gc()\<close>, run every ten seconds; \<^verbatim>\<open>now\<close> is the clock reading \<^verbatim>\<open>ts() - this._start\<close>.
\<close>

definition gc :: "real \<Rightarrow> catchonika \<Rightarrow> catchonika" where
  "gc now s =
     (let maxMs = bufferMinutes (settings s) * 60 * 1000;
          cutoff = now - maxMs
      in if cutoff \<le> 0 then s
         else schedulePersist (s\<lparr>events := filter (\<lambda>e. ev_t e \<ge> cutoff) (events s)\<rparr>))"

text \<open>\<^verbatim>\<open>clear()\<close>; \<^verbatim>\<open>_wipeState\<close> only removes the stored copy outside the object.\<close>

definition clear :: "catchonika \<Rightarrow> catchonika" where
  "clear s =
     s\<lparr>events := [], active := Map.empty, sustain := Map.empty, pendingRelease := Map.empty,
       idleTimer := None, currentTake := None, takes := []\<rparr>"

text \<open>
  The slice \<^verbatim>\<open>_saveRange\<close> hands to the reconstruction: the events inside the range,
  sorted by time (a stable sort).
\<close>

definition rangeEvents :: "event list \<Rightarrow> real \<Rightarrow> real \<Rightarrow> event list" where
  "rangeEvents evs startT endT =
     sort_key ev_t (filter (\<lambda>e. ev_t e \<ge> startT \<and> ev_t e \<le> endT) evs)"

text \<open>The state a new object starts from when nothing is restored from storage.\<close>

definition initial :: "settings_t \<Rightarrow> catchonika" where
  "initial cfg =
     \<lparr>settings = cfg, events = [], active = Map.empty, sustain = Map.empty,
      pendingRelease = Map.empty, takes = [], currentTake = None, idleTimer = None,
      persistTimer = False\<rparr>"

section \<open>Encoding: \<^verbatim>\<open>msToTicks\<close> and \<^verbatim>\<open>_buildMidi\<close>\<close>

definition PPQ :: real where
  "PPQ = 128"

text \<open>
  JavaScript numbers are IEEE-754 doubles: a division, a product or a difference is the
  exact result rounded to a double. That rounding belongs to the platform, not to the
  repository, and is the parameter \<^verbatim>\<open>fl\<close> of the encoder's functions; what is known of it
  is stated as \<^verbatim>\<open>ieeeRounding\<close> below. (An overflow to \<^verbatim>\<open>Infinity\<close> has no counterpart.)

  \<^verbatim>\<open>Math.max(1, Math.round((ms / 60000) * (bpm * ppq)))\<close>. \<^verbatim>\<open>Math.round\<close> rounds a half
  upwards, as \<^const>\<open>round\<close> does, and is exact, as \<^verbatim>\<open>Math.max\<close> is.
\<close>

definition msToTicks :: "(real \<Rightarrow> real) \<Rightarrow> real \<Rightarrow> real \<Rightarrow> real \<Rightarrow> int" where
  "msToTicks fl ms bpm ppq = max 1 (round (fl (fl (ms / 60000) * fl (bpm * ppq))))"

definition clamp :: "int \<Rightarrow> int \<Rightarrow> int \<Rightarrow> int" where
  "clamp n lo hi = max lo (min hi n)"

text \<open>
  The options handed to \<^verbatim>\<open>new MidiWriter.NoteEvent\<close>. The pitch is kept as the note number
  that \<^verbatim>\<open>midiNoteToName\<close> prints; the duration \<^verbatim>\<open>`T${durTick}`\<close> is kept as the tick count.
\<close>

record note_event =
  pitch :: jsnum
  duration :: int
  velocity :: int
  channel :: nat
  tick :: int

text \<open>A track: its tempo, its time signature, the key in its name, its note events.\<close>

record track =
  tempo :: real
  timeSignature :: "nat \<times> nat \<times> nat \<times> nat"
  trackName :: trackKey
  trackEvents :: "note_event list"

datatype error = MidiWriterNotFound

text \<open>
  The first loop of \<^verbatim>\<open>_buildMidi\<close>: the least first start among the tracks that have
  notes. \<^verbatim>\<open>None\<close> stands for the initial \<^verbatim>\<open>Infinity\<close>, which becomes 0 at the end.
\<close>

definition t0Step :: "real option \<Rightarrow> trackKey \<times> note_interval list \<Rightarrow> real option" where
  "t0Step t0 tr =
     (case snd tr of
        [] \<Rightarrow> t0
      | n # ns \<Rightarrow>
          (case t0 of
             None \<Rightarrow> Some (startMs n)
           | Some m \<Rightarrow> if startMs n < m then Some (startMs n) else Some m))"

definition t0Global :: "(trackKey \<times> note_interval list) list \<Rightarrow> real" where
  "t0Global notesByTrack =
     (case foldl t0Step None notesByTrack of None \<Rightarrow> 0 | Some m \<Rightarrow> m)"

definition encodeNote :: "(real \<Rightarrow> real) \<Rightarrow> real \<Rightarrow> real \<Rightarrow> note_interval \<Rightarrow> note_event" where
  "encodeNote fl t0 bpm n =
     \<lparr>pitch = ni_note n,
      duration = msToTicks fl (fl (endMs n - startMs n)) bpm PPQ,
      velocity = clamp (round (fl (fl (real (ni_vel n) / 127) * 100))) 1 100,
      channel = ni_ch n,
      tick = msToTicks fl (fl (startMs n - t0)) bpm PPQ\<rparr>"

text \<open>
  \<^verbatim>\<open>_buildMidi(notesByTrack, bpm)\<close>; \<^verbatim>\<open>writerLoaded\<close> says whether \<^verbatim>\<open>globalThis.MidiWriter\<close>
  is there. The result is the list of tracks handed to \<^verbatim>\<open>new MidiWriter.Writer\<close>.
\<close>

definition buildMidi ::
  "(real \<Rightarrow> real) \<Rightarrow> bool \<Rightarrow> (trackKey \<times> note_interval list) list \<Rightarrow> real \<Rightarrow> error + track list"
where
  "buildMidi fl writerLoaded notesByTrack bpm =
     (if \<not> writerLoaded then Inl MidiWriterNotFound
      else
        (let t0 = t0Global notesByTrack
         in Inr (map (\<lambda>(trackKey, notes).
                   \<lparr>tempo = bpm, timeSignature = (4, 4, 24, 8), trackName = trackKey,
                    trackEvents = (if notes = [] then [] else map (encodeNote fl t0 bpm) notes)\<rparr>)
                 notesByTrack)))"

section \<open>Notions used to state the properties\<close>

text \<open>
  The invariant of the capture state that ties the pending sets to the active notes and
  the pedal: a pending set has no key twice, every pending key is an active note of that
  channel, and a channel has pending keys only while its pedal is down.
\<close>

definition pendingActive :: "catchonika \<Rightarrow> bool" where
  "pendingActive s =
     (\<forall>c. distinct (ensureSet (pendingRelease s) c) \<and>
          (\<forall>k \<in> set (ensureSet (pendingRelease s) c). active s k \<noteq> None \<and> fst k = c) \<and>
          (ensureSet (pendingRelease s) c \<noteq> [] \<longrightarrow> sustain s c = Some True))"

text \<open>The default settings of the constructor.\<close>

definition defaults :: settings_t where
  "defaults = \<lparr>bufferMinutes = 30, defaultBpm = 120, groupByChannel = False, takeIdleSeconds = 3\<rparr>"

text \<open>A note lies inside the window and has a length.\<close>

definition inWindow :: "real \<Rightarrow> real \<Rightarrow> note_interval \<Rightarrow> bool" where
  "inWindow ws we n = (ws \<le> startMs n \<and> startMs n < endMs n \<and> endMs n \<le> we)"

text \<open>A fixed input device and the events of a held note released under the pedal.\<close>

definition dev :: source where
  "dev = \<lparr>inputId = ''in-1'', inputName = ''Keys''\<rparr>"

definition scenarioA :: "event list" where
  "scenarioA =
     [NoteOn 0 1 (Num 60) 100 dev,
      ControlChange 10 1 (Num 64) 127 dev,
      NoteOffDeferred 50 1 (Num 60) dev,
      ControlChange 200 1 (Num 64) 0 dev,
      NoteOff 200 1 (Num 60) dev]"

text \<open>
  Three capture states for the examples: a key held on channel 1, then the pedal pressed,
  then the key released under the pedal.
\<close>

definition heldNote :: catchonika where
  "heldNote = onMIDIMessage 0 dev (Some [0x90, 60, 100]) (initial defaults)"

definition heldPedal :: catchonika where
  "heldPedal = onMIDIMessage 10 dev (Some [0xB0, 64, 127]) heldNote"

definition releasedUnderPedal :: catchonika where
  "releasedUnderPedal = onMIDIMessage 50 dev (Some [0x80, 60, 0]) heldPedal"

text \<open>
  What is known of the platform's rounding \<^verbatim>\<open>fl\<close>: zero stays zero, and a number whose
  size lies between \<open>2^-1022\<close> and \<open>2^1023\<close> is rounded with a relative error of at most
  \<open>2^-53\<close>. Rounding to the nearest double has both properties.
\<close>

definition ieeeRounding :: "(real \<Rightarrow> real) \<Rightarrow> bool" where
  "ieeeRounding fl =
     (fl 0 = 0 \<and>
      (\<forall>x. 1 / 2 ^ 1022 \<le> \<bar>x\<bar> \<and> \<bar>x\<bar> \<le> 2 ^ 1023 \<longrightarrow> \<bar>fl x - x\<bar> \<le> \<bar>x\<bar> / 2 ^ 53))"

text \<open>The exact, unrounded number of ticks that a span of milliseconds lasts at a tempo.\<close>

definition exactTicks :: "real \<Rightarrow> real \<Rightarrow> real" where
  "exactTicks ms bpm = (ms / 60000) * (bpm * PPQ)"

text \<open>Every track is ordered by start time, as \<^verbatim>\<open>_reconstructNotes\<close> returns it.\<close>

definition tracksSorted :: "(trackKey \<times> note_interval list) list \<Rightarrow> bool" where
  "tracksSorted tracks = (\<forall>tr \<in> set tracks. sorted (map startMs (snd tr)))"

text \<open>All notes of all tracks.\<close>

definition trackNotes :: "(trackKey \<times> note_interval list) list \<Rightarrow> note_interval list" where
  "trackNotes tracks = concat (map snd tracks)"

text \<open>Two tracks of one reconstruction: a note at 0 ms on one, a note at 1000 ms on the other.\<close>

definition twoOnsets :: "(trackKey \<times> note_interval list) list" where
  "twoOnsets =
     [(TrackCh 1, [\<lparr>ni_ch = 1, ni_note = Num 60, startMs = 0, endMs = 500, ni_vel = 127\<rparr>]),
      (TrackCh 2, [\<lparr>ni_ch = 2, ni_note = Num 64, startMs = 1000, endMs = 1500, ni_vel = 127\<rparr>])]"

text \<open>
  Reading the pedal off the events alone: the pedal of a channel is held after a run of
  events when the last controller-64 event of that channel in it has a value of 64 or more.
\<close>

fun pedalAfter :: "nat \<Rightarrow> bool \<Rightarrow> event \<Rightarrow> bool" where
  "pedalAfter c d (ControlChange t c' cc val src) =
     (if c' = c \<and> cc = Num 64 then val \<ge> 64 else d)"
| "pedalAfter c d (NoteOn t c' n v src) = d"
| "pedalAfter c d (NoteOff t c' n src) = d"
| "pedalAfter c d (NoteOffDeferred t c' n src) = d"
| "pedalAfter c d (PitchBend t c' b src) = d"
| "pedalAfter c d (Raw t c' bs src) = d"

definition pedalHeld :: "nat \<Rightarrow> event list \<Rightarrow> bool" where
  "pedalHeld c evs = foldl (pedalAfter c) False evs"

text \<open>A pedal release of a channel; a note event of a key; a note-on of a key.\<close>

fun isPedalUp :: "nat \<Rightarrow> event \<Rightarrow> bool" where
  "isPedalUp c (ControlChange t c' cc val src) = (c' = c \<and> cc = Num 64 \<and> val < 64)"
| "isPedalUp c (NoteOn t c' n v src) = False"
| "isPedalUp c (NoteOff t c' n src) = False"
| "isPedalUp c (NoteOffDeferred t c' n src) = False"
| "isPedalUp c (PitchBend t c' b src) = False"
| "isPedalUp c (Raw t c' bs src) = False"

fun isNoteOnOf :: "key \<Rightarrow> event \<Rightarrow> bool" where
  "isNoteOnOf k (NoteOn t c n v src) = (k = (c, n))"
| "isNoteOnOf k (NoteOff t c n src) = False"
| "isNoteOnOf k (NoteOffDeferred t c n src) = False"
| "isNoteOnOf k (ControlChange t c cc val src) = False"
| "isNoteOnOf k (PitchBend t c b src) = False"
| "isNoteOnOf k (Raw t c bs src) = False"

fun touchesKey :: "key \<Rightarrow> event \<Rightarrow> bool" where
  "touchesKey k (NoteOn t c n v src) = (k = (c, n))"
| "touchesKey k (NoteOff t c n src) = (k = (c, n))"
| "touchesKey k (NoteOffDeferred t c n src) = (k = (c, n))"
| "touchesKey k (ControlChange t c cc val src) = False"
| "touchesKey k (PitchBend t c b src) = False"
| "touchesKey k (Raw t c bs src) = False"

text \<open>In the replay, the pending set of a channel holds keys of that channel only.\<close>

definition pendingOwn :: "rstate \<Rightarrow> bool" where
  "pendingOwn st = (\<forall>c. \<forall>k \<in> set (ensureSet (r_pending st) c). fst k = c)"

text \<open>In the replay, a released note waits under the pedal: it is still active, its key is
  pending on its channel, and the channel's pedal is down.\<close>

definition waiting :: "key \<Rightarrow> real \<Rightarrow> nat \<Rightarrow> rstate \<Rightarrow> bool" where
  "waiting k tOn v st =
     (map_of (r_active st) k = Some (tOn, v) \<and>
      k \<in> set (ensureSet (r_pending st) (fst k)) \<and>
      r_sustain st (fst k) = Some True \<and> pendingOwn st)"

text \<open>
  In the replay, a struck note sounds with no release of its key waiting: it is active
  and its key is not pending on its channel.
\<close>

definition sounding :: "key \<Rightarrow> real \<Rightarrow> nat \<Rightarrow> rstate \<Rightarrow> bool" where
  "sounding k tOn v st =
     (map_of (r_active st) k = Some (tOn, v) \<and>
      k \<notin> set (ensureSet (r_pending st) (fst k)) \<and> pendingOwn st)"

text \<open>
  Event logs as the capture writes them. A key held while the pedal is pumped, then
  released under the pedal. A key released under the pedal and struck again before the
  pedal goes up. The same, with the second strike held while the pedal is pumped and
  released under the pedal at 50. A key struck and released under the pedal, and the
  pedal released, all at one reading of the clock.
\<close>

definition pumped :: "event list" where
  "pumped =
     [NoteOn 0 1 (Num 60) 100 dev,
      ControlChange 10 1 (Num 64) 127 dev,
      ControlChange 20 1 (Num 64) 0 dev,
      ControlChange 30 1 (Num 64) 127 dev,
      NoteOffDeferred 50 1 (Num 60) dev,
      ControlChange 200 1 (Num 64) 0 dev,
      NoteOff 200 1 (Num 60) dev]"

definition restruck :: "event list" where
  "restruck =
     [NoteOn 0 1 (Num 60) 100 dev,
      ControlChange 10 1 (Num 64) 127 dev,
      NoteOffDeferred 20 1 (Num 60) dev,
      NoteOn 30 1 (Num 60) 90 dev,
      ControlChange 40 1 (Num 64) 0 dev,
      NoteOff 40 1 (Num 60) dev]"

definition restruckPumped :: "event list" where
  "restruckPumped =
     [NoteOn 0 1 (Num 60) 100 dev,
      ControlChange 10 1 (Num 64) 127 dev,
      NoteOffDeferred 20 1 (Num 60) dev,
      NoteOn 30 1 (Num 60) 90 dev,
      ControlChange 40 1 (Num 64) 0 dev,
      NoteOff 40 1 (Num 60) dev,
      ControlChange 45 1 (Num 64) 127 dev,
      NoteOff 50 1 (Num 60) dev,
      ControlChange 60 1 (Num 64) 0 dev]"

definition sameInstant :: "event list" where
  "sameInstant =
     [ControlChange 0 1 (Num 64) 127 dev,
      NoteOn 5 1 (Num 60) 100 dev,
      NoteOffDeferred 5 1 (Num 60) dev,
      ControlChange 5 1 (Num 64) 0 dev,
      NoteOff 5 1 (Num 60) dev]"

text \<open>
  NoteOn/NoteOff pairs, in the words of the specification. The matching note-off of a
  note-on is the first later \<^verbatim>\<open>noteoff\<close> event of the same key; the expected notes are one
  per note-on, from the time of the note-on to the time of its matching note-off.
\<close>

fun isNoteOn :: "event \<Rightarrow> bool" where
  "isNoteOn (NoteOn t c n v src) = True"
| "isNoteOn (NoteOff t c n src) = False"
| "isNoteOn (NoteOffDeferred t c n src) = False"
| "isNoteOn (ControlChange t c cc val src) = False"
| "isNoteOn (PitchBend t c b src) = False"
| "isNoteOn (Raw t c bs src) = False"

fun matchingOff :: "key \<Rightarrow> event list \<Rightarrow> real option" where
  "matchingOff k [] = None"
| "matchingOff k (NoteOff t c n src # es) = (if k = (c, n) then Some t else matchingOff k es)"
| "matchingOff k (NoteOn t c n v src # es) = matchingOff k es"
| "matchingOff k (NoteOffDeferred t c n src # es) = matchingOff k es"
| "matchingOff k (ControlChange t c cc val src # es) = matchingOff k es"
| "matchingOff k (PitchBend t c b src # es) = matchingOff k es"
| "matchingOff k (Raw t c bs src # es) = matchingOff k es"

text \<open>The note of one sounding key, closed by its matching note-off in the events to come.\<close>

definition closeOne :: "event list \<Rightarrow> key \<times> (real \<times> nat) \<Rightarrow> note_interval list" where
  "closeOne es p =
     (case matchingOff (fst p) es of
        None \<Rightarrow> []
      | Some tOff \<Rightarrow>
          [\<lparr>ni_ch = fst (fst p), ni_note = snd (fst p), startMs = fst (snd p), endMs = tOff,
            ni_vel = snd (snd p)\<rparr>])"

fun expectedNotes :: "event list \<Rightarrow> note_interval list" where
  "expectedNotes [] = []"
| "expectedNotes (NoteOn t c n v src # es) = closeOne es ((c, n), (t, v)) @ expectedNotes es"
| "expectedNotes (NoteOff t c n src # es) = expectedNotes es"
| "expectedNotes (NoteOffDeferred t c n src # es) = expectedNotes es"
| "expectedNotes (ControlChange t c cc val src # es) = expectedNotes es"
| "expectedNotes (PitchBend t c b src # es) = expectedNotes es"
| "expectedNotes (Raw t c bs src # es) = expectedNotes es"

text \<open>
  A run of events made of NoteOn/NoteOff pairs with no sustain activity, given the notes
  that sound at its start: a note-on only comes for a key that is not sounding, a
  note-off only for a key that is, strictly after its note-on; there is no controller-64
  event and no deferred note-off; at the end no note sounds.
\<close>

fun paired :: "(key \<times> (real \<times> nat)) list \<Rightarrow> event list \<Rightarrow> bool" where
  "paired opn [] = (opn = [])"
| "paired opn (NoteOn t c n v src # es) =
     (map_of opn (c, n) = None \<and> paired (AList.update (c, n) (t, v) opn) es)"
| "paired opn (NoteOff t c n src # es) =
     (case map_of opn (c, n) of
        None \<Rightarrow> False
      | Some (tOn, v) \<Rightarrow> tOn < t \<and> paired (AList.delete (c, n) opn) es)"
| "paired opn (NoteOffDeferred t c n src # es) = False"
| "paired opn (ControlChange t c cc val src # es) = (cc \<noteq> Num 64 \<and> paired opn es)"
| "paired opn (PitchBend t c b src # es) = paired opn es"
| "paired opn (Raw t c bs src # es) = paired opn es"

text \<open>The same key struck twice before it is released; a pair of no length.\<close>

definition overlapping :: "event list" where
  "overlapping =
     [NoteOn 0 1 (Num 60) 100 dev, NoteOn 10 1 (Num 60) 90 dev,
      NoteOff 20 1 (Num 60) dev, NoteOff 30 1 (Num 60) dev]"

definition twoPairs :: "event list" where
  "twoPairs =
     [NoteOn 0 1 (Num 60) 100 dev, NoteOn 10 1 (Num 64) 90 dev,
      NoteOff 20 1 (Num 60) dev, NoteOff 30 1 (Num 64) dev]"

text \<open>The notes of all sounding keys, each closed by its matching note-off to come.\<close>

definition closing :: "(key \<times> (real \<times> nat)) list \<Rightarrow> event list \<Rightarrow> note_interval list" where
  "closing opn es = concat (map (closeOne es) opn)"

section \<open>Properties\<close>

subsection \<open>Every reconstructed note lies inside the window\<close>

lemma pushNote_set:
  "set (pushNote ws we c n tOn tOff v notes) \<subseteq>
     insert \<lparr>ni_ch = c, ni_note = n, startMs = max ws (min we tOn),
             endMs = max ws (min we tOff), ni_vel = v\<rparr> (set notes)"
  by (auto simp: pushNote_def Let_def)

lemma pushNote_inWindow:
  assumes "\<forall>x \<in> set notes. inWindow ws we x"
  shows "\<forall>x \<in> set (pushNote ws we c n tOn tOff v notes). inWindow ws we x"
  using assms by (auto simp: pushNote_def Let_def inWindow_def)

lemma flushKeys_inWindow:
  "\<forall>x \<in> set (r_notes st). inWindow ws we x \<Longrightarrow>
   \<forall>x \<in> set (r_notes (flushKeys ws we c t ks st)). inWindow ws we x"
proof (induction ks arbitrary: st)
  case Nil
  then show ?case by simp
next
  case (Cons k ks)
  show ?case
  proof (cases "map_of (r_active st) k")
    case None
    then show ?thesis using Cons by simp
  next
    case (Some p)
    obtain tOn v where p: "p = (tOn, v)" by (cases p)
    let ?st = "st\<lparr>r_notes := pushNote ws we c (parseNote k) tOn t v (r_notes st),
                   r_active := AList.delete k (r_active st)\<rparr>"
    have "\<forall>x \<in> set (r_notes ?st). inWindow ws we x"
      using pushNote_inWindow [OF Cons.prems] by simp
    then have "\<forall>x \<in> set (r_notes (flushKeys ws we c t ks ?st)). inWindow ws we x"
      by (rule Cons.IH)
    then show ?thesis using Some p by simp
  qed
qed

lemma closeNote_inWindow:
  "\<forall>x \<in> set (r_notes st). inWindow ws we x \<Longrightarrow>
   \<forall>x \<in> set (r_notes (closeNote ws we t c n st)). inWindow ws we x"
  using pushNote_inWindow [of "r_notes st" ws we]
  by (auto simp: closeNote_def split: option.splits)

lemma replayEvent_inWindow:
  assumes a: "\<forall>x \<in> set (r_notes st). inWindow ws we x"
  shows "\<forall>x \<in> set (r_notes (replayEvent ws we e st)). inWindow ws we x"
proof (cases e)
  case (ControlChange t c cc val src)
  have "\<forall>x \<in> set (r_notes (flushKeys ws we c t ks (st\<lparr>r_sustain := m\<rparr>))). inWindow ws we x" for ks m
    using a by (intro flushKeys_inWindow) simp
  then show ?thesis using a ControlChange by (simp add: Let_def)
qed (use a in \<open>simp_all add: closeNote_inWindow\<close>)

lemma replay_inWindow:
  "\<forall>x \<in> set (r_notes st). inWindow ws we x \<Longrightarrow>
   \<forall>x \<in> set (r_notes (replay ws we evs st)). inWindow ws we x"
  unfolding replay_def
proof (induction evs arbitrary: st)
  case Nil
  then show ?case by simp
next
  case (Cons e evs)
  show ?case using Cons.IH [OF replayEvent_inWindow [OF Cons.prems]] by simp
qed

lemma closeOpen_inWindow:
  "\<forall>x \<in> set acc. inWindow ws we x \<Longrightarrow>
   \<forall>x \<in> set (closeOpen ws we act acc). inWindow ws we x"
  unfolding closeOpen_def
proof (induction act arbitrary: acc)
  case Nil
  then show ?case by simp
next
  case (Cons a act)
  obtain k tOn v where a: "a = (k, (tOn, v))" by (cases a) auto
  show ?case using Cons.IH [OF pushNote_inWindow [OF Cons.prems]] a by simp
qed

lemma allNotes_inWindow: "\<forall>x \<in> set (allNotes evs ws we). inWindow ws we x"
  unfolding allNotes_def Let_def
  by (intro closeOpen_inWindow replay_inWindow) (simp add: r_init_def)

lemma mset_tracks_update:
  "mset (concat (map snd (AList.update k ((case map_of m k of None \<Rightarrow> [] | Some ns \<Rightarrow> ns) @ [n]) m))) =
   mset (concat (map snd m)) + {#n#}"
  by (induction m) auto

lemma addToTrack_mset:
  "mset (concat (map snd (addToTrack grp m n))) = mset (concat (map snd m)) + {#n#}"
  unfolding addToTrack_def Let_def by (rule mset_tracks_update)

lemma foldl_addToTrack_mset:
  "mset (concat (map snd (foldl (addToTrack grp) m ns))) = mset (concat (map snd m)) + mset ns"
  by (induction ns arbitrary: m) (simp_all add: addToTrack_mset)

lemma mset_concat_sorted_tracks:
  "mset (concat (map snd (map (\<lambda>(k, ns). (k, sort_key f ns)) m))) = mset (concat (map snd m))"
  by (induction m) auto

lemma reconstructNotes_mset:
  "mset (concat (map snd (reconstructNotes grp evs ws we))) = mset (allNotes evs ws we)"
  unfolding reconstructNotes_def
  by (simp only: mset_concat_sorted_tracks foldl_addToTrack_mset) simp

lemma reconstructNotes_set:
  "(\<exists>k ns. (k, ns) \<in> set (reconstructNotes grp evs ws we) \<and> n \<in> set ns) \<longleftrightarrow>
   n \<in> set (allNotes evs ws we)"
proof -
  have "set (concat (map snd (reconstructNotes grp evs ws we))) = set (allNotes evs ws we)"
    using reconstructNotes_mset [of grp evs ws we] by (metis set_mset_mset)
  then have "n \<in> set (allNotes evs ws we) \<longleftrightarrow>
      (\<exists>p \<in> set (reconstructNotes grp evs ws we). n \<in> set (snd p))"
    by auto
  then show ?thesis by force
qed

lemma scenarioA_notes:
  "reconstructNotes False scenarioA 0 250 =
     [(TrackMain, [\<lparr>ni_ch = 1, ni_note = Num 60, startMs = 0, endMs = 200, ni_vel = 100\<rparr>])]"
  by (simp add: scenarioA_def reconstructNotes_def allNotes_def replay_def r_init_def
      closeNote_def pushNote_def closeOpen_def ensureSet_def set_add_def addToTrack_def
      trackKeyFor_def Let_def)

lemma scenarioA_clamped:
  "reconstructNotes False scenarioA 50 150 =
     [(TrackMain, [\<lparr>ni_ch = 1, ni_note = Num 60, startMs = 50, endMs = 150, ni_vel = 100\<rparr>])]"
  by (simp add: scenarioA_def reconstructNotes_def allNotes_def replay_def r_init_def
      closeNote_def pushNote_def closeOpen_def ensureSet_def set_add_def addToTrack_def
      trackKeyFor_def Let_def)

lemma pushNote_clamped:
  "pushNote ws we c m tOn tOff v acc =
     (if max ws (min we tOn) < max ws (min we tOff)
      then acc @ [\<lparr>ni_ch = c, ni_note = m, startMs = max ws (min we tOn),
                    endMs = max ws (min we tOff), ni_vel = v\<rparr>]
      else acc)"
  by (simp add: pushNote_def Let_def)

lemma single_pair_clamped:
  "reconstructNotes grp [NoteOn tOn c m v s1, NoteOff tOff c m s2] ws we =
     (if max ws (min we tOn) < max ws (min we tOff)
      then [(trackKeyFor grp c,
             [\<lparr>ni_ch = c, ni_note = m, startMs = max ws (min we tOn),
               endMs = max ws (min we tOff), ni_vel = v\<rparr>])]
      else [])"
  by (simp add: reconstructNotes_def allNotes_def replay_def r_init_def closeNote_def
      pushNote_clamped closeOpen_def addToTrack_def Let_def)

lemma open_note_clamped:
  "reconstructNotes grp [NoteOn tOn c m v s1] ws we =
     (if max ws (min we tOn) < max ws we
      then [(trackKeyFor grp c,
             [\<lparr>ni_ch = c, ni_note = parseNote (c, m), startMs = max ws (min we tOn),
               endMs = max ws we, ni_vel = v\<rparr>])]
      else [])"
  by (auto simp: reconstructNotes_def allNotes_def replay_def r_init_def
      pushNote_clamped closeOpen_def addToTrack_def Let_def)

text \<open>
  C6. Every note that \<^verbatim>\<open>_reconstructNotes\<close> returns, in whatever track, starts at or after
  the window's start, ends at or before the window's end, and ends strictly after it
  starts. Its ends are clamped: \<^verbatim>\<open>pushNote\<close> appends the candidate with start
  \<^verbatim>\<open>max(windowStart, min(windowEnd, tOn))\<close> and end \<^verbatim>\<open>max(windowStart, min(windowEnd, tOff))\<close>
  when that end is after that start, and appends nothing otherwise. So a note-on with its
  note-off is returned as exactly the clamped note when the clamped length is positive
  and as nothing when it is not, and a note still open at the end of the slice is returned
  clamped and ending at the window's end.
\<close>

theorem reconstruct_within_window:
  "((k, ns) \<in> set (reconstructNotes grp evs ws we) \<and> n \<in> set ns \<longrightarrow>
      ws \<le> startMs n \<and> startMs n < endMs n \<and> endMs n \<le> we) \<and>
   pushNote ws we c m tOn tOff v acc =
     (if max ws (min we tOn) < max ws (min we tOff)
      then acc @ [\<lparr>ni_ch = c, ni_note = m, startMs = max ws (min we tOn),
                    endMs = max ws (min we tOff), ni_vel = v\<rparr>]
      else acc) \<and>
   reconstructNotes grp [NoteOn tOn c m v s1, NoteOff tOff c m s2] ws we =
     (if max ws (min we tOn) < max ws (min we tOff)
      then [(trackKeyFor grp c,
             [\<lparr>ni_ch = c, ni_note = m, startMs = max ws (min we tOn),
               endMs = max ws (min we tOff), ni_vel = v\<rparr>])]
      else []) \<and>
   reconstructNotes grp [NoteOn tOn c m v s1] ws we =
     (if max ws (min we tOn) < max ws we
      then [(trackKeyFor grp c,
             [\<lparr>ni_ch = c, ni_note = parseNote (c, m), startMs = max ws (min we tOn),
               endMs = max ws we, ni_vel = v\<rparr>])]
      else [])"
proof (intro conjI impI)
  assume a: "(k, ns) \<in> set (reconstructNotes grp evs ws we) \<and> n \<in> set ns"
  then have "n \<in> set (allNotes evs ws we)"
    using reconstructNotes_set by blast
  then have "inWindow ws we n"
    using allNotes_inWindow [of evs ws we] by simp
  then show "ws \<le> startMs n" "startMs n < endMs n" "endMs n \<le> we"
    by (simp_all add: inWindow_def)
qed (rule pushNote_clamped single_pair_clamped open_note_clamped)+

theorem reconstruct_within_window_witness:
  "(TrackMain, [\<lparr>ni_ch = 1, ni_note = Num 60, startMs = 50, endMs = 150, ni_vel = 100\<rparr>])
     \<in> set (reconstructNotes False scenarioA 50 150) \<and>
   (50::real) \<le> 50 \<and> (50::real) < 150 \<and> (150::real) \<le> 150 \<and>
   pushNote 50 150 1 (Num 60) 0 200 100 [] =
     [\<lparr>ni_ch = 1, ni_note = Num 60, startMs = 50, endMs = 150, ni_vel = 100\<rparr>] \<and>
   pushNote 50 150 1 (Num 60) 300 400 100 [] = [] \<and>
   reconstructNotes False [NoteOn 0 1 (Num 60) 100 dev, NoteOff 200 1 (Num 60) dev] 50 150 =
     [(TrackMain, [\<lparr>ni_ch = 1, ni_note = Num 60, startMs = 50, endMs = 150, ni_vel = 100\<rparr>])] \<and>
   reconstructNotes True [NoteOn 0 2 (Num 64) 90 dev] 0 1000 =
     [(TrackCh 2, [\<lparr>ni_ch = 2, ni_note = Num 64, startMs = 0, endMs = 1000, ni_vel = 90\<rparr>])]"
proof -
  let ?n = "\<lparr>ni_ch = 1, ni_note = Num 60, startMs = 50, endMs = 150, ni_vel = 100\<rparr>"
  have m: "(TrackMain, [?n]) \<in> set (reconstructNotes False scenarioA 50 150) \<and> ?n \<in> set [?n]"
    by (simp add: scenarioA_clamped)
  note w1 = reconstruct_within_window [of TrackMain "[?n]" False scenarioA 50 150 ?n
      1 "Num 60" 0 200 100 "[]" dev dev]
  note w2 = reconstruct_within_window [of TrackMain "[?n]" True scenarioA 50 150 ?n
      1 "Num 60" 300 400 100 "[]" dev dev]
  note w3 = reconstruct_within_window [of TrackMain "[?n]" True scenarioA 0 1000 ?n
      2 "Num 64" 0 200 90 "[]" dev dev]
  show ?thesis
    using w1 w2 w3 m by (simp add: trackKeyFor_def)
qed

subsection \<open>Buffer hygiene\<close>

text \<open>
  C8. The sweep \<^verbatim>\<open>_gc\<close> is idempotent: at a fixed clock reading, running it a second time
  right after the first leaves the event buffer, and the whole state, as the first run
  left it.
\<close>

theorem gc_idempotent:
  "gc now (gc now s) = gc now s \<and> events (gc now (gc now s)) = events (gc now s)"
  by (simp add: gc_def schedulePersist_def Let_def)

text \<open>
  C10. After \<^verbatim>\<open>clear()\<close> the event log, the active notes, the pedal map and the pending
  sets are empty, no take is open, the list of closed takes is empty (so an open take was
  dropped, not closed), the idle timer is cancelled, and a reconstruction of any window,
  on the buffer or on the slice \<^verbatim>\<open>_saveRange\<close> cuts from it, has no notes.
\<close>

theorem clear_resets:
  "events (clear s) = [] \<and>
   active (clear s) = Map.empty \<and>
   sustain (clear s) = Map.empty \<and>
   pendingRelease (clear s) = Map.empty \<and>
   currentTake (clear s) = None \<and>
   takes (clear s) = [] \<and>
   idleTimer (clear s) = None \<and>
   reconstructNotes grp (rangeEvents (events (clear s)) ws we) ws we = [] \<and>
   reconstructNotes grp (events (clear s)) ws we = []"
  by (simp add: clear_def rangeEvents_def reconstructNotes_def allNotes_def replay_def
      r_init_def closeOpen_def)

subsection \<open>Capture: what the helpers leave alone\<close>

lemma schedulePersist_fields [simp]:
  "events (schedulePersist s) = events s"
  "active (schedulePersist s) = active s"
  "sustain (schedulePersist s) = sustain s"
  "pendingRelease (schedulePersist s) = pendingRelease s"
  "takes (schedulePersist s) = takes s"
  "currentTake (schedulePersist s) = currentTake s"
  "idleTimer (schedulePersist s) = idleTimer s"
  "settings (schedulePersist s) = settings s"
  by (simp_all add: schedulePersist_def)

lemma resetIdleTimer_fields [simp]:
  "events (resetIdleTimer s) = events s"
  "active (resetIdleTimer s) = active s"
  "sustain (resetIdleTimer s) = sustain s"
  "pendingRelease (resetIdleTimer s) = pendingRelease s"
  "takes (resetIdleTimer s) = takes s"
  "currentTake (resetIdleTimer s) = currentTake s"
  "idleTimer (resetIdleTimer s) = Some (takeIdleSeconds (settings s) * 1000)"
  "settings (resetIdleTimer s) = settings s"
  by (simp_all add: resetIdleTimer_def)

lemma startTake_fields [simp]:
  "events (startTake t s) = events s"
  "active (startTake t s) = active s"
  "sustain (startTake t s) = sustain s"
  "pendingRelease (startTake t s) = pendingRelease s"
  "takes (startTake t s) = takes s"
  "settings (startTake t s) = settings s"
  by (simp_all add: startTake_def split: option.splits)

lemma startTake_idle:
  "currentTake s = None \<Longrightarrow>
   currentTake (startTake t s) = Some \<lparr>ot_startMs = t, lastActivityMs = t\<rparr> \<and>
   idleTimer (startTake t s) = Some (takeIdleSeconds (settings s) * 1000)"
  by (simp add: startTake_def)

lemma startTake_open: "currentTake s = Some ct \<Longrightarrow> startTake t s = s"
  by (simp add: startTake_def)

lemma markActivity_fields [simp]:
  "events (markActivity t s) = events s"
  "active (markActivity t s) = active s"
  "sustain (markActivity t s) = sustain s"
  "pendingRelease (markActivity t s) = pendingRelease s"
  "takes (markActivity t s) = takes s"
  "settings (markActivity t s) = settings s"
  by (simp_all add: markActivity_def split: option.splits)

lemma markActivity_idle: "currentTake s = None \<Longrightarrow> markActivity t s = s"
  by (simp add: markActivity_def)

lemma sustainDown_cong [simp]:
  "sustainDown (schedulePersist s) c = sustainDown s c"
  "sustainDown (startTake t s) c = sustainDown s c"
  "sustainDown (markActivity t s) c = sustainDown s c"
  by (simp_all add: sustainDown_def)

subsection \<open>Capture: the note-termination rule\<close>

lemma handleNoteOff_orphan:
  "active s (c, n) = None \<Longrightarrow>
   handleNoteOff t c n src s = schedulePersist (s\<lparr>events := events s @ [NoteOff t c n src]\<rparr>)"
  by (simp add: handleNoteOff_def)

lemma handleNoteOff_deferred:
  "active s (c, n) = Some a \<Longrightarrow> sustainDown s c \<Longrightarrow>
   handleNoteOff t c n src s =
     schedulePersist
       (s\<lparr>pendingRelease :=
            (pendingRelease s)(c \<mapsto> set_add (c, n) (ensureSet (pendingRelease s) c)),
          events := events s @ [NoteOffDeferred t c n src]\<rparr>)"
  by (simp add: handleNoteOff_def)

lemma handleNoteOff_immediate:
  "active s (c, n) = Some a \<Longrightarrow> \<not> sustainDown s c \<Longrightarrow>
   handleNoteOff t c n src s =
     schedulePersist
       (s\<lparr>events := events s @ [NoteOff t c n src], active := (active s)((c, n) := None)\<rparr>)"
  by (simp add: handleNoteOff_def)

lemma onMIDIMessage_termination:
  assumes "status AND 0xF0 = 0x80 \<or>
           (status AND 0xF0 = 0x90 \<and> byteOr0 (status # rest) 2 = 0)"
  shows "onMIDIMessage t src (Some (status # rest)) s =
           handleNoteOff t (unat (status AND 0x0F) + 1) (byteAt (status # rest) 1) src
             (markActivity t s)"
  using assms by (auto simp: onMIDIMessage_def Let_def)

text \<open>
  C2. A termination request (a note-off message, or a note-on message with velocity 0)
  for channel \<^verbatim>\<open>c\<close> and note \<^verbatim>\<open>n\<close> at time \<^verbatim>\<open>t\<close> is handled by exactly three cases.
  With no active note for the key, a \<^verbatim>\<open>noteoff\<close> event at \<^verbatim>\<open>t\<close> is appended and the
  active notes, the pedals, the pending sets and the takes stay as they are. With an
  active note and the channel's pedal down, the key joins the channel's pending set, a
  \<^verbatim>\<open>noteoff_deferred\<close> event at \<^verbatim>\<open>t\<close> is appended and the note stays active. Otherwise a
  \<^verbatim>\<open>noteoff\<close> event at \<^verbatim>\<open>t\<close> is appended and the active note is removed.
\<close>

theorem termination_three_cases:
  assumes "status AND 0xF0 = 0x80 \<or>
           (status AND 0xF0 = 0x90 \<and> byteOr0 (status # rest) 2 = 0)"
    and "c = unat (status AND 0x0F) + 1"
    and "n = byteAt (status # rest) 1"
    and "s' = onMIDIMessage t src (Some (status # rest)) s"
  shows "(active s (c, n) = None \<longrightarrow>
            events s' = events s @ [NoteOff t c n src] \<and>
            active s' = active s \<and> sustain s' = sustain s \<and>
            pendingRelease s' = pendingRelease s \<and> takes s' = takes s) \<and>
         (active s (c, n) \<noteq> None \<and> sustainDown s c \<longrightarrow>
            events s' = events s @ [NoteOffDeferred t c n src] \<and>
            active s' = active s \<and> sustain s' = sustain s \<and>
            pendingRelease s' =
              (pendingRelease s)(c \<mapsto> set_add (c, n) (ensureSet (pendingRelease s) c)) \<and>
            (c, n) \<in> set (ensureSet (pendingRelease s') c) \<and> takes s' = takes s) \<and>
         (active s (c, n) \<noteq> None \<and> \<not> sustainDown s c \<longrightarrow>
            events s' = events s @ [NoteOff t c n src] \<and>
            active s' = (active s)((c, n) := None) \<and> sustain s' = sustain s \<and>
            pendingRelease s' = pendingRelease s \<and> takes s' = takes s)"
proof -
  let ?m = "markActivity t s"
  have s': "s' = handleNoteOff t c n src ?m"
    using assms by (simp add: onMIDIMessage_termination)
  have orphan: "active s (c, n) = None \<Longrightarrow>
      s' = schedulePersist (?m\<lparr>events := events ?m @ [NoteOff t c n src]\<rparr>)"
    unfolding s' by (rule handleNoteOff_orphan) simp
  have deferred: "active s (c, n) = Some a \<Longrightarrow> sustainDown s c \<Longrightarrow>
      s' = schedulePersist
        (?m\<lparr>pendingRelease :=
              (pendingRelease ?m)(c \<mapsto> set_add (c, n) (ensureSet (pendingRelease ?m) c)),
            events := events ?m @ [NoteOffDeferred t c n src]\<rparr>)" for a
    unfolding s' by (rule handleNoteOff_deferred) simp_all
  have immediate: "active s (c, n) = Some a \<Longrightarrow> \<not> sustainDown s c \<Longrightarrow>
      s' = schedulePersist
        (?m\<lparr>events := events ?m @ [NoteOff t c n src],
            active := (active ?m)((c, n) := None)\<rparr>)" for a
    unfolding s' by (rule handleNoteOff_immediate) simp_all
  show ?thesis
  proof (intro conjI impI)
    assume "active s (c, n) = None"
    note eq = orphan [OF this]
    show "events s' = events s @ [NoteOff t c n src]" "active s' = active s"
      "sustain s' = sustain s" "pendingRelease s' = pendingRelease s" "takes s' = takes s"
      by (simp_all add: eq)
  next
    assume "active s (c, n) \<noteq> None \<and> sustainDown s c"
    then obtain a where "active s (c, n) = Some a" and "sustainDown s c" by auto
    note eq = deferred [OF this]
    show "events s' = events s @ [NoteOffDeferred t c n src]" "active s' = active s"
      "sustain s' = sustain s" "takes s' = takes s"
      "pendingRelease s' =
         (pendingRelease s)(c \<mapsto> set_add (c, n) (ensureSet (pendingRelease s) c))"
      "(c, n) \<in> set (ensureSet (pendingRelease s') c)"
      by (simp_all add: eq ensureSet_def set_add_def)
  next
    assume "active s (c, n) \<noteq> None \<and> \<not> sustainDown s c"
    then obtain a where "active s (c, n) = Some a" and "\<not> sustainDown s c" by auto
    note eq = immediate [OF this]
    show "events s' = events s @ [NoteOff t c n src]"
      "active s' = (active s)((c, n) := None)"
      "sustain s' = sustain s" "pendingRelease s' = pendingRelease s" "takes s' = takes s"
      by (simp_all add: eq)
  qed
qed

lemma heldNote_fields:
  "events heldNote = [NoteOn 0 1 (Num 60) 100 dev]"
  "active heldNote = [(1, Num 60) \<mapsto> \<lparr>an_tOn = 0, an_vel = 100, an_inputId = ''in-1''\<rparr>]"
  "sustain heldNote = Map.empty"
  "pendingRelease heldNote = Map.empty"
  "currentTake heldNote = Some \<lparr>ot_startMs = 0, lastActivityMs = 0\<rparr>"
  "takes heldNote = []"
  "settings heldNote = defaults"
  by (simp_all add: heldNote_def onMIDIMessage_def initial_def markActivity_def startTake_def
      byteAt_def byteOr0_def dev_def Let_def)

lemma heldPedal_fields:
  "events heldPedal = [NoteOn 0 1 (Num 60) 100 dev, ControlChange 10 1 (Num 64) 127 dev]"
  "active heldPedal = [(1, Num 60) \<mapsto> \<lparr>an_tOn = 0, an_vel = 100, an_inputId = ''in-1''\<rparr>]"
  "sustain heldPedal = [1 \<mapsto> True]"
  "pendingRelease heldPedal = Map.empty"
  "currentTake heldPedal = Some \<lparr>ot_startMs = 0, lastActivityMs = 10\<rparr>"
  "takes heldPedal = []"
  "settings heldPedal = defaults"
  by (simp_all add: heldPedal_def onMIDIMessage_def onControlChange_def heldNote_fields
      markActivity_def startTake_def sustainDown_def byteAt_def byteOr0_def Let_def)

lemma releasedUnderPedal_fields:
  "events releasedUnderPedal =
     [NoteOn 0 1 (Num 60) 100 dev, ControlChange 10 1 (Num 64) 127 dev,
      NoteOffDeferred 50 1 (Num 60) dev]"
  "active releasedUnderPedal =
     [(1, Num 60) \<mapsto> \<lparr>an_tOn = 0, an_vel = 100, an_inputId = ''in-1''\<rparr>]"
  "sustain releasedUnderPedal = [1 \<mapsto> True]"
  "pendingRelease releasedUnderPedal = [1 \<mapsto> [(1, Num 60)]]"
  "currentTake releasedUnderPedal = Some \<lparr>ot_startMs = 0, lastActivityMs = 50\<rparr>"
  "takes releasedUnderPedal = []"
  "settings releasedUnderPedal = defaults"
  by (simp_all add: releasedUnderPedal_def onMIDIMessage_def handleNoteOff_def heldPedal_fields
      markActivity_def sustainDown_def byteAt_def byteOr0_def ensureSet_def set_add_def
      Let_def)

theorem termination_three_cases_witness:
  "events (onMIDIMessage 5 dev (Some [0x80, 72, 0]) (initial defaults))
     = [NoteOff 5 1 (Num 72) dev] \<and>
   active (onMIDIMessage 5 dev (Some [0x80, 72, 0]) (initial defaults)) = Map.empty \<and>
   events (onMIDIMessage 50 dev (Some [0x90, 60, 0]) heldPedal)
     = events heldPedal @ [NoteOffDeferred 50 1 (Num 60) dev] \<and>
   pendingRelease (onMIDIMessage 50 dev (Some [0x90, 60, 0]) heldPedal)
     = [1 \<mapsto> [(1, Num 60)]] \<and>
   active (onMIDIMessage 50 dev (Some [0x90, 60, 0]) heldPedal) = active heldPedal \<and>
   events (onMIDIMessage 50 dev (Some [0x80, 60, 0]) heldNote)
     = events heldNote @ [NoteOff 50 1 (Num 60) dev] \<and>
   active (onMIDIMessage 50 dev (Some [0x80, 60, 0]) heldNote) = Map.empty"
proof -
  have a: "(0x80 :: 8 word) AND 0xF0 = 0x80 \<or>
      ((0x80 :: 8 word) AND 0xF0 = 0x90 \<and> byteOr0 (0x80 # [72, 0]) 2 = 0)"
    by simp
  have b: "(0x90 :: 8 word) AND 0xF0 = 0x80 \<or>
      ((0x90 :: 8 word) AND 0xF0 = 0x90 \<and> byteOr0 (0x90 # [60, 0]) 2 = 0)"
    by (simp add: byteOr0_def)
  have c: "(0x80 :: 8 word) AND 0xF0 = 0x80 \<or>
      ((0x80 :: 8 word) AND 0xF0 = 0x90 \<and> byteOr0 (0x80 # [60, 0]) 2 = 0)"
    by simp
  have c1: "(1::nat) = unat ((0x80 :: 8 word) AND 0x0F) + 1" by simp
  have c2: "(1::nat) = unat ((0x90 :: 8 word) AND 0x0F) + 1" by simp
  have n1: "Num 72 = byteAt ((0x80 :: 8 word) # [72, 0]) 1" by (simp add: byteAt_def)
  have n2: "Num 60 = byteAt ((0x90 :: 8 word) # [60, 0]) 1" by (simp add: byteAt_def)
  have n3: "Num 60 = byteAt ((0x80 :: 8 word) # [60, 0]) 1" by (simp add: byteAt_def)
  note w1 = termination_three_cases [where t = 5 and src = dev and s = "initial defaults", OF a c1 n1 refl]
  note w2 = termination_three_cases [where t = 50 and src = dev and s = heldPedal, OF b c2 n2 refl]
  note w3 = termination_three_cases [where t = 50 and src = dev and s = heldNote, OF c c1 n3 refl]
  have i: "active (initial defaults) (1, Num 72) = None" "events (initial defaults) = []"
    "active (initial defaults) = Map.empty"
    by (simp_all add: initial_def)
  have p: "active heldPedal (1, Num 60) \<noteq> None" "sustainDown heldPedal 1"
    by (simp_all add: heldPedal_fields sustainDown_def)
  have h: "active heldNote (1, Num 60) \<noteq> None" "\<not> sustainDown heldNote 1"
    by (simp_all add: heldNote_fields sustainDown_def)
  show ?thesis
    using w1 w2 w3 i p h
    by (simp add: heldPedal_fields heldNote_fields ensureSet_def set_add_def)
qed

subsection \<open>Orphan terminations\<close>

lemma replay_append:
  "replay ws we (xs @ ys) st = replay ws we ys (replay ws we xs st)"
  by (simp add: replay_def)

lemma replay_Cons: "replay ws we (e # es) st = replay ws we es (replayEvent ws we e st)"
  by (simp add: replay_def)

lemma replay_Nil [simp]: "replay ws we [] st = st"
  by (simp add: replay_def)

lemma closeNote_orphan: "map_of (r_active st) (c, n) = None \<Longrightarrow> closeNote ws we t c n st = st"
  by (simp add: closeNote_def)

text \<open>
  C9. An orphan termination is not an error and makes no note. In the capture, a
  termination request whose key has no active note appends a \<^verbatim>\<open>noteoff\<close> event and
  schedules a save, and changes nothing else. In the reconstruction, a \<^verbatim>\<open>noteoff\<close> or
  \<^verbatim>\<open>noteoff_deferred\<close> event that finds no locally active note for its key leaves the
  replay where it was, so the result is the one the slice without that event gives.
  Neither function has a failing branch.
\<close>

theorem orphan_termination:
  "(active s (c, n) = None \<longrightarrow>
      handleNoteOff t c n src s =
        s\<lparr>events := events s @ [NoteOff t c n src], persistTimer := True\<rparr>) \<and>
   (map_of (r_active (replay ws we pre r_init)) (c, n) = None \<and>
    (e = NoteOff t c n src \<or> e = NoteOffDeferred t c n src) \<longrightarrow>
      replayEvent ws we e (replay ws we pre r_init) = replay ws we pre r_init \<and>
      reconstructNotes grp (pre @ [e] @ post) ws we = reconstructNotes grp (pre @ post) ws we)"
proof (intro conjI impI)
  assume "active s (c, n) = None"
  then show "handleNoteOff t c n src s =
      s\<lparr>events := events s @ [NoteOff t c n src], persistTimer := True\<rparr>"
    by (simp add: handleNoteOff_orphan schedulePersist_def)
next
  assume a: "map_of (r_active (replay ws we pre r_init)) (c, n) = None \<and>
    (e = NoteOff t c n src \<or> e = NoteOffDeferred t c n src)"
  then show same: "replayEvent ws we e (replay ws we pre r_init) = replay ws we pre r_init"
    by (auto simp: closeNote_orphan)
  have "replay ws we (pre @ [e] @ post) r_init = replay ws we (pre @ post) r_init"
    by (simp add: replay_append replay_Cons same)
  then show "reconstructNotes grp (pre @ [e] @ post) ws we =
      reconstructNotes grp (pre @ post) ws we"
    by (simp add: reconstructNotes_def allNotes_def)
qed

theorem orphan_termination_witness:
  "handleNoteOff 5 1 (Num 72) dev (initial defaults) =
     (initial defaults)\<lparr>events := [NoteOff 5 1 (Num 72) dev], persistTimer := True\<rparr> \<and>
   reconstructNotes True [NoteOff 5 1 (Num 72) dev] 0 1000 = []"
proof -
  have a: "active (initial defaults) (1, Num 72) = None"
    by (simp add: initial_def)
  have b: "map_of (r_active (replay 0 1000 [] r_init)) (1, Num 72) = None"
    by (simp add: r_init_def)
  have c: "reconstructNotes True ([] @ []) 0 1000 = []"
    by (simp add: reconstructNotes_def allNotes_def r_init_def closeOpen_def)
  have d: "events (initial defaults) = []"
    by (simp add: initial_def)
  show ?thesis
    using orphan_termination [of "initial defaults" 1 "Num 72" 5 dev 0 1000 "[]"
        "NoteOff 5 1 (Num 72) dev" True "[]"] a b c d
    by simp
qed

subsection \<open>Opening a take\<close>

text \<open>
  C5 as stated fails: a message that is none of note-on, note-off, control change and
  pitch bend (here a program change) is recorded as a \<^verbatim>\<open>raw\<close> event, and with no take
  open it opens none and arms no idle timer.
\<close>

theorem raw_message_opens_no_take:
  "currentTake (initial defaults) = None \<and>
   events (onMIDIMessage 5 dev (Some [0xC0, 5]) (initial defaults))
     = [Raw 5 1 [0xC0, 5] dev] \<and>
   currentTake (onMIDIMessage 5 dev (Some [0xC0, 5]) (initial defaults)) = None \<and>
   idleTimer (onMIDIMessage 5 dev (Some [0xC0, 5]) (initial defaults)) = None"
  by (simp add: onMIDIMessage_def initial_def markActivity_def schedulePersist_def Let_def)

text \<open>
  C5, amended. Whenever no take is open and a note-on with velocity above 0, a control
  change of a controller other than 64, a sustain pedal-down edge (controller 64 with a
  value of at least 64 while the channel's pedal is not down) or a pitch bend arrives at
  time \<^verbatim>\<open>t\<close>, a take with \<^verbatim>\<open>startMs = t\<close> is opened and the idle timer is armed with
  \<^verbatim>\<open>takeIdleSeconds\<close> seconds.
\<close>

theorem take_opens_on_activity:
  assumes "currentTake s = None"
    and "data = status # rest"
    and "c = unat (status AND 0x0F) + 1"
    and "(status AND 0xF0 = 0x90 \<and> byteOr0 data 2 > 0) \<or>
         (status AND 0xF0 = 0xB0 \<and> byteAt data 1 \<noteq> Num 64) \<or>
         (status AND 0xF0 = 0xB0 \<and> byteAt data 1 = Num 64 \<and>
            \<not> sustainDown s c \<and> byteOr0 data 2 \<ge> 64) \<or>
         status AND 0xF0 = 0xE0"
  shows "currentTake (onMIDIMessage t src (Some data) s)
           = Some \<lparr>ot_startMs = t, lastActivityMs = t\<rparr> \<and>
         idleTimer (onMIDIMessage t src (Some data) s)
           = Some (takeIdleSeconds (settings s) * 1000)"
proof -
  have m: "markActivity t s = s"
    using assms(1) by (rule markActivity_idle)
  note st = startTake_idle [OF assms(1), of t]
  consider
    (noteon) "status AND 0xF0 = 0x90" "byteOr0 data 2 > 0"
    | (cc) "status AND 0xF0 = 0xB0" "byteAt data 1 \<noteq> Num 64"
    | (pedal) "status AND 0xF0 = 0xB0" "byteAt data 1 = Num 64"
        "\<not> sustainDown s c" "byteOr0 data 2 \<ge> 64"
    | (bend) "status AND 0xF0 = 0xE0"
    using assms(4) by auto
  then show ?thesis
  proof cases
    case noteon
    then show ?thesis
      using assms(1,2) st by (simp add: onMIDIMessage_def m Let_def)
  next
    case cc
    then show ?thesis
      using assms(1,2) st by (simp add: onMIDIMessage_def onControlChange_def m Let_def)
  next
    case pedal
    have "currentTake (startTake t (s'\<lparr>sustain := f\<rparr>)) = Some \<lparr>ot_startMs = t, lastActivityMs = t\<rparr> \<and>
        idleTimer (startTake t (s'\<lparr>sustain := f\<rparr>)) = Some (takeIdleSeconds (settings s') * 1000)"
      if "currentTake s' = None" for s' f
      using that by (simp add: startTake_def resetIdleTimer_def)
    with pedal show ?thesis
      using assms(1,2,3)
      by (simp add: onMIDIMessage_def onControlChange_def m Let_def sustainDown_def)
  next
    case bend
    then show ?thesis
      using assms(1,2) st by (simp add: onMIDIMessage_def m Let_def)
  qed
qed

theorem take_opens_on_activity_witness:
  "currentTake (onMIDIMessage 7 dev (Some [0x90, 60, 100]) (initial defaults))
     = Some \<lparr>ot_startMs = 7, lastActivityMs = 7\<rparr> \<and>
   idleTimer (onMIDIMessage 7 dev (Some [0x90, 60, 100]) (initial defaults)) = Some 3000 \<and>
   currentTake (onMIDIMessage 7 dev (Some [0xB1, 64, 127]) (initial defaults))
     = Some \<lparr>ot_startMs = 7, lastActivityMs = 7\<rparr> \<and>
   currentTake (onMIDIMessage 7 dev (Some [0xB0, 1, 5]) (initial defaults))
     = Some \<lparr>ot_startMs = 7, lastActivityMs = 7\<rparr> \<and>
   currentTake (onMIDIMessage 7 dev (Some [0xE0, 0, 64]) (initial defaults))
     = Some \<lparr>ot_startMs = 7, lastActivityMs = 7\<rparr>"
proof -
  have i: "currentTake (initial defaults) = None"
    "takeIdleSeconds (settings (initial defaults)) = 3"
    "\<not> sustainDown (initial defaults) 2"
    by (simp_all add: initial_def defaults_def sustainDown_def)
  have c1: "(1::nat) = unat ((0x90 :: 8 word) AND 0x0F) + 1" by simp
  have c2: "(2::nat) = unat ((0xB1 :: 8 word) AND 0x0F) + 1" by simp
  have c3: "(1::nat) = unat ((0xB0 :: 8 word) AND 0x0F) + 1" by simp
  have c4: "(1::nat) = unat ((0xE0 :: 8 word) AND 0x0F) + 1" by simp
  have "currentTake (onMIDIMessage 7 dev (Some [0x90, 60, 100]) (initial defaults))
       = Some \<lparr>ot_startMs = 7, lastActivityMs = 7\<rparr> \<and>
     idleTimer (onMIDIMessage 7 dev (Some [0x90, 60, 100]) (initial defaults))
       = Some (takeIdleSeconds (settings (initial defaults)) * 1000)"
    by (rule take_opens_on_activity [OF i(1) refl c1]) (simp add: byteOr0_def)
  moreover have "currentTake (onMIDIMessage 7 dev (Some [0xB1, 64, 127]) (initial defaults))
       = Some \<lparr>ot_startMs = 7, lastActivityMs = 7\<rparr> \<and>
     idleTimer (onMIDIMessage 7 dev (Some [0xB1, 64, 127]) (initial defaults))
       = Some (takeIdleSeconds (settings (initial defaults)) * 1000)"
    by (rule take_opens_on_activity [OF i(1) refl c2]) (simp add: byteOr0_def byteAt_def i)
  moreover have "currentTake (onMIDIMessage 7 dev (Some [0xB0, 1, 5]) (initial defaults))
       = Some \<lparr>ot_startMs = 7, lastActivityMs = 7\<rparr> \<and>
     idleTimer (onMIDIMessage 7 dev (Some [0xB0, 1, 5]) (initial defaults))
       = Some (takeIdleSeconds (settings (initial defaults)) * 1000)"
    by (rule take_opens_on_activity [OF i(1) refl c3]) (simp add: byteAt_def)
  moreover have "currentTake (onMIDIMessage 7 dev (Some [0xE0, 0, 64]) (initial defaults))
       = Some \<lparr>ot_startMs = 7, lastActivityMs = 7\<rparr> \<and>
     idleTimer (onMIDIMessage 7 dev (Some [0xE0, 0, 64]) (initial defaults))
       = Some (takeIdleSeconds (settings (initial defaults)) * 1000)"
    by (rule take_opens_on_activity [OF i(1) refl c4]) simp
  ultimately show ?thesis by (simp add: i)
qed

subsection \<open>Capture: the pedal release\<close>

lemma flushPending_fields [simp]:
  "sustain (flushPending t c src ks s) = sustain s"
  "pendingRelease (flushPending t c src ks s) = pendingRelease s"
  "takes (flushPending t c src ks s) = takes s"
  "currentTake (flushPending t c src ks s) = currentTake s"
  "idleTimer (flushPending t c src ks s) = idleTimer s"
  "settings (flushPending t c src ks s) = settings s"
  by (induction ks arbitrary: s; simp split: option.splits)+

lemma flushPending_active:
  "active (flushPending t c src ks s) k = (if k \<in> set ks then None else active s k)"
  by (induction ks arbitrary: s) (auto split: option.splits)

lemma flushPending_events:
  "distinct ks \<Longrightarrow>
   events (flushPending t c src ks s) =
     events s @ map (\<lambda>k. NoteOff t c (parseNote k) src) (filter (\<lambda>k. active s k \<noteq> None) ks)"
proof (induction ks arbitrary: s)
  case Nil
  then show ?case by simp
next
  case (Cons k ks)
  show ?case
  proof (cases "active s k")
    case None
    then show ?thesis using Cons by simp
  next
    case (Some a)
    let ?s = "s\<lparr>events := events s @ [NoteOff t c (parseNote k) src],
                  active := (active s)(k := None)\<rparr>"
    have "filter (\<lambda>k'. active ?s k' \<noteq> None) ks = filter (\<lambda>k'. active s k' \<noteq> None) ks"
      using Cons.prems by (intro filter_cong) auto
    moreover have "events (flushPending t c src ks ?s) =
        events ?s @ map (\<lambda>k. NoteOff t c (parseNote k) src)
          (filter (\<lambda>k'. active ?s k' \<noteq> None) ks)"
      using Cons.prems by (intro Cons.IH) simp
    ultimately show ?thesis using Some by simp
  qed
qed

lemma onMIDIMessage_pedal_up:
  assumes "status AND 0xF0 = 0xB0"
    and "byteAt (status # rest) 1 = Num 64"
    and "c = unat (status AND 0x0F) + 1"
    and "val = byteOr0 (status # rest) 2"
    and "sustainDown s c" and "val < 64"
  shows "onMIDIMessage t src (Some (status # rest)) s =
     (let m = markActivity t s;
          s4 = m\<lparr>events := events m @ [ControlChange t c (Num 64) val src],
                 persistTimer := True, sustain := (sustain m)(c \<mapsto> False)\<rparr>;
          s5 = flushPending t c src (ensureSet (pendingRelease s) c) s4
      in schedulePersist (s5\<lparr>pendingRelease := (pendingRelease s5)(c \<mapsto> [])\<rparr>))"
  using assms
  by (simp add: onMIDIMessage_def onControlChange_def Let_def schedulePersist_def
      sustainDown_def)

text \<open>
  C3. On a pedal-up edge on channel \<^verbatim>\<open>c\<close> at time \<^verbatim>\<open>t\<close> (a controller-64 message with a
  value below 64 while the channel's pedal is down), the capture appends the control
  change and then one \<^verbatim>\<open>noteoff\<close> event at time \<^verbatim>\<open>t\<close> for every key of the channel's
  pending set, removes the active note of each of these keys and of no other key, and
  leaves the channel's pending set empty and its pedal up. The state is one that satisfies
  the invariant \<^const>\<open>pendingActive\<close>, which every state of a running object does.
\<close>

theorem pedal_up_flushes_pending:
  assumes "pendingActive s"
    and "status AND 0xF0 = 0xB0"
    and "byteAt (status # rest) 1 = Num 64"
    and "c = unat (status AND 0x0F) + 1"
    and "val = byteOr0 (status # rest) 2"
    and "sustainDown s c" and "val < 64"
    and "s' = onMIDIMessage t src (Some (status # rest)) s"
    and "keys = ensureSet (pendingRelease s) c"
  shows "events s' =
           events s @ ControlChange t c (Num 64) val src #
             map (\<lambda>k. NoteOff t c (parseNote k) src) keys \<and>
         (\<forall>k \<in> set keys. NoteOff t c (parseNote k) src \<in> set (events s') \<and> active s' k = None) \<and>
         (\<forall>k. k \<notin> set keys \<longrightarrow> active s' k = active s k) \<and>
         ensureSet (pendingRelease s') c = [] \<and>
         (\<forall>c'. c' \<noteq> c \<longrightarrow> pendingRelease s' c' = pendingRelease s c') \<and>
         sustain s' = (sustain s)(c \<mapsto> False)"
proof -
  let ?m = "markActivity t s"
  let ?s4 = "?m\<lparr>events := events ?m @ [ControlChange t c (Num 64) val src],
                 persistTimer := True, sustain := (sustain ?m)(c \<mapsto> False)\<rparr>"
  let ?s5 = "flushPending t c src keys ?s4"
  have s': "s' = schedulePersist (?s5\<lparr>pendingRelease := (pendingRelease ?s5)(c \<mapsto> [])\<rparr>)"
    using onMIDIMessage_pedal_up [OF assms(2-7), of t src] assms(8,9) by (simp add: Let_def)
  have d: "distinct keys" and act: "\<forall>k \<in> set keys. active s k \<noteq> None"
    using assms(1,9) by (auto simp: pendingActive_def)
  have "filter (\<lambda>k. active ?s4 k \<noteq> None) keys = keys"
    using act by (simp add: filter_id_conv)
  then have ev: "events s' =
      events s @ ControlChange t c (Num 64) val src #
        map (\<lambda>k. NoteOff t c (parseNote k) src) keys"
    using flushPending_events [OF d, of t c src ?s4] by (simp add: s')
  have a: "active s' k = (if k \<in> set keys then None else active s k)" for k
    by (simp add: s' flushPending_active)
  show ?thesis
    using ev a by (simp add: s' ensureSet_def)
qed

theorem pedal_up_flushes_pending_witness:
  "pendingActive releasedUnderPedal \<and> sustainDown releasedUnderPedal 1 \<and>
   events (onMIDIMessage 200 dev (Some [0xB0, 64, 0]) releasedUnderPedal) =
     events releasedUnderPedal @
       [ControlChange 200 1 (Num 64) 0 dev, NoteOff 200 1 (Num 60) dev] \<and>
   active (onMIDIMessage 200 dev (Some [0xB0, 64, 0]) releasedUnderPedal) (1, Num 60) = None \<and>
   ensureSet (pendingRelease (onMIDIMessage 200 dev (Some [0xB0, 64, 0]) releasedUnderPedal)) 1
     = []"
proof -
  have inv: "pendingActive releasedUnderPedal"
    by (simp add: pendingActive_def releasedUnderPedal_fields ensureSet_def)
  have a: "(0xB0 :: 8 word) AND 0xF0 = 0xB0" by simp
  have b: "byteAt ((0xB0 :: 8 word) # [64, 0]) 1 = Num 64" by (simp add: byteAt_def)
  have c: "(1::nat) = unat ((0xB0 :: 8 word) AND 0x0F) + 1" by simp
  have v: "(0::nat) = byteOr0 ((0xB0 :: 8 word) # [64, 0]) 2" by (simp add: byteOr0_def)
  have p: "sustainDown releasedUnderPedal 1"
    by (simp add: sustainDown_def releasedUnderPedal_fields)
  have k: "[(1, Num 60)] = ensureSet (pendingRelease releasedUnderPedal) 1"
    by (simp add: ensureSet_def releasedUnderPedal_fields)
  have z: "(0::nat) < 64" by simp
  show ?thesis
    using pedal_up_flushes_pending [OF inv a b c v p z refl k, of 200 dev] inv p
    by simp
qed

subsection \<open>The capture invariant holds in every state of a running object\<close>

lemma pendingActive_cong:
  "active s' = active s \<Longrightarrow> sustain s' = sustain s \<Longrightarrow>
   pendingRelease s' = pendingRelease s \<Longrightarrow> pendingActive s' = pendingActive s"
  by (simp add: pendingActive_def)

lemma pendingActiveD:
  assumes "pendingActive s"
  shows "distinct (ensureSet (pendingRelease s) c)"
    and "k \<in> set (ensureSet (pendingRelease s) c) \<Longrightarrow> active s k \<noteq> None"
    and "k \<in> set (ensureSet (pendingRelease s) c) \<Longrightarrow> fst k = c"
    and "ensureSet (pendingRelease s) c \<noteq> [] \<Longrightarrow> sustain s c = Some True"
  using assms unfolding pendingActive_def by blast+

lemma ensureSet_upd:
  "ensureSet (m(c \<mapsto> ks)) c' = (if c' = c then ks else ensureSet m c')"
  by (simp add: ensureSet_def)

lemma pendingActive_initial: "pendingActive (initial cfg)"
  by (simp add: pendingActive_def initial_def ensureSet_def)

lemma pendingActive_clear: "pendingActive (clear s)"
  by (simp add: pendingActive_def clear_def ensureSet_def)

lemma pendingActive_gc: "pendingActive (gc now s) = pendingActive s"
  by (rule pendingActive_cong) (simp_all add: gc_def Let_def)

lemma pendingActive_endTake: "pendingActive (endTake s) = pendingActive s"
  by (rule pendingActive_cong) (simp_all add: endTake_def split: option.splits)

lemma pendingActive_markActivity: "pendingActive (markActivity t s) = pendingActive s"
  by (rule pendingActive_cong) simp_all

lemma pendingActive_startTake: "pendingActive (startTake t s) = pendingActive s"
  by (rule pendingActive_cong) simp_all

lemma pendingActive_schedulePersist: "pendingActive (schedulePersist s) = pendingActive s"
  by (rule pendingActive_cong) simp_all

lemma pendingActive_handleNoteOff:
  assumes "pendingActive s"
  shows "pendingActive (handleNoteOff t c n src s)"
proof (cases "active s (c, n)")
  case None
  then show ?thesis
    using assms by (simp add: handleNoteOff_orphan pendingActive_def)
next
  case (Some a)
  show ?thesis
  proof (cases "sustainDown s c")
    case True
    then show ?thesis
      using assms Some
      by (auto simp: handleNoteOff_deferred [OF Some True] pendingActive_def ensureSet_def
          set_add_def sustainDown_def split: option.splits if_splits)
  next
    case False
    have empty: "ensureSet (pendingRelease s) c = []"
      using assms False by (auto simp: pendingActive_def sustainDown_def)
    have other: "k \<noteq> (c, n)" if "k \<in> set (ensureSet (pendingRelease s) c')" for k c'
    proof (cases "c' = c")
      case True
      then show ?thesis using that empty by simp
    next
      case False
      then show ?thesis using pendingActiveD(3) [OF assms that] by auto
    qed
    show ?thesis
      using assms other
      by (auto simp: handleNoteOff_immediate [OF Some False] pendingActive_def)
  qed
qed

lemma pendingActive_noteOn:
  assumes "pendingActive s"
  shows "pendingActive (schedulePersist
           (s\<lparr>events := evs, active := (active s)(k \<mapsto> a)\<rparr>))"
  using assms by (auto simp: pendingActive_def)

lemma pendingActive_onControlChange:
  assumes "pendingActive s"
  shows "pendingActive (onControlChange t c src data s)"
proof (cases "byteAt data 1 = Num 64")
  case False
  have "pendingActive (onControlChange t c src data s) = pendingActive s"
    using False by (intro pendingActive_cong) (simp_all add: onControlChange_def Let_def)
  then show ?thesis using assms by simp
next
  case True
  let ?val = "byteOr0 data 2"
  let ?s2 = "schedulePersist (s\<lparr>events := events s @ [ControlChange t c (Num 64) ?val src]\<rparr>)"
  show ?thesis
  proof (cases "sustainDown s c \<and> \<not> ?val \<ge> 64")
    case flush: True
    let ?keys = "ensureSet (pendingRelease s) c"
    let ?s4 = "?s2\<lparr>sustain := (sustain ?s2)(c \<mapsto> False)\<rparr>"
    let ?s5 = "flushPending t c src ?keys ?s4"
    have eq: "onControlChange t c src data s =
        schedulePersist (?s5\<lparr>pendingRelease := (pendingRelease ?s5)(c \<mapsto> [])\<rparr>)"
      using True flush by (simp add: onControlChange_def Let_def sustainDown_def)
    have other: "k \<notin> set ?keys" if "k \<in> set (ensureSet (pendingRelease s) c')" "c' \<noteq> c" for k c'
      using pendingActiveD(3) [OF assms that(1)] pendingActiveD(3) [OF assms, of k c] that(2)
      by auto
    have fields: "active (schedulePersist (?s5\<lparr>pendingRelease := (pendingRelease ?s5)(c \<mapsto> [])\<rparr>)) k
          = (if k \<in> set ?keys then None else active s k)"
      "sustain (schedulePersist (?s5\<lparr>pendingRelease := (pendingRelease ?s5)(c \<mapsto> [])\<rparr>))
          = (sustain s)(c \<mapsto> False)"
      "ensureSet (pendingRelease
          (schedulePersist (?s5\<lparr>pendingRelease := (pendingRelease ?s5)(c \<mapsto> [])\<rparr>))) c'
          = (if c' = c then [] else ensureSet (pendingRelease s) c')" for k c'
      by (simp_all add: flushPending_active ensureSet_upd)
    show ?thesis
      unfolding eq pendingActive_def
    proof (intro allI)
      fix c'
      show "distinct (ensureSet (pendingRelease
            (schedulePersist (?s5\<lparr>pendingRelease := (pendingRelease ?s5)(c \<mapsto> [])\<rparr>))) c') \<and>
          (\<forall>k\<in>set (ensureSet (pendingRelease
            (schedulePersist (?s5\<lparr>pendingRelease := (pendingRelease ?s5)(c \<mapsto> [])\<rparr>))) c').
             active (schedulePersist (?s5\<lparr>pendingRelease := (pendingRelease ?s5)(c \<mapsto> [])\<rparr>)) k
               \<noteq> None \<and> fst k = c') \<and>
          (ensureSet (pendingRelease
            (schedulePersist (?s5\<lparr>pendingRelease := (pendingRelease ?s5)(c \<mapsto> [])\<rparr>))) c' \<noteq> [] \<longrightarrow>
           sustain (schedulePersist (?s5\<lparr>pendingRelease := (pendingRelease ?s5)(c \<mapsto> [])\<rparr>)) c'
             = Some True)"
      proof (cases "c' = c")
        case True
        then show ?thesis by (simp only: fields) simp
      next
        case False
        then show ?thesis
          using pendingActiveD [OF assms, where c = c'] other [where c' = c']
          by (simp only: fields) auto
      qed
    qed
  next
    case noflush: False
    have eq: "active (onControlChange t c src data s) = active s"
      "pendingRelease (onControlChange t c src data s) = pendingRelease s"
      "sustain (onControlChange t c src data s) = (sustain s)(c \<mapsto> (?val \<ge> 64))"
      using True noflush by (auto simp: onControlChange_def Let_def sustainDown_def)
    have "ensureSet (pendingRelease s) c = []" if "\<not> ?val \<ge> 64"
      using that noflush assms by (auto simp: pendingActive_def sustainDown_def)
    then show ?thesis
      using assms by (auto simp: pendingActive_def eq)
  qed
qed

lemma pendingActive_onMIDIMessage:
  assumes "pendingActive s"
  shows "pendingActive (onMIDIMessage t src msg s)"
proof (cases msg)
  case None
  then show ?thesis using assms by (simp add: onMIDIMessage_def)
next
  case (Some data)
  show ?thesis
  proof (cases data)
    case Nil
    then show ?thesis using assms Some by (simp add: onMIDIMessage_def)
  next
    case (Cons status rest)
    have m: "pendingActive (markActivity t s)"
      using assms by (simp add: pendingActive_markActivity)
    have st: "pendingActive (startTake t (markActivity t s))"
      using m by (simp add: pendingActive_startTake)
    have on: "pendingActive (schedulePersist
        (x\<lparr>events := evs, active := (active x)(k \<mapsto> a)\<rparr>))"
      if "pendingActive x" for x evs k a
      using that by (rule pendingActive_noteOn)
    have ev: "pendingActive (schedulePersist (x\<lparr>events := evs\<rparr>))"
      if "pendingActive x" for x evs
      using that by (simp add: pendingActive_def)
    show ?thesis
      unfolding Some Cons onMIDIMessage_def
      using m st on [OF m] on [OF st] ev [OF m] ev [OF st]
        pendingActive_handleNoteOff [OF m] pendingActive_onControlChange [OF m]
      by (simp add: Let_def)
  qed
qed

subsection \<open>Encoding: the common time base of the tracks\<close>

lemma t0Step_Some: "\<exists>m'. t0Step (Some m) tr = Some m' \<and> m' \<le> m"
  by (auto simp: t0Step_def split: list.splits)

lemma foldl_t0Step_Some: "\<exists>m'. foldl t0Step (Some m) tracks = Some m' \<and> m' \<le> m"
proof (induction tracks arbitrary: m)
  case Nil
  then show ?case by simp
next
  case (Cons tr tracks)
  obtain m1 where m1: "t0Step (Some m) tr = Some m1" "m1 \<le> m"
    using t0Step_Some by blast
  obtain m2 where "foldl t0Step (Some m1) tracks = Some m2" "m2 \<le> m1"
    using Cons.IH by blast
  then show ?case using m1 by auto
qed

lemma t0Step_head:
  "snd tr = n # ns \<Longrightarrow> \<exists>m. t0Step acc tr = Some m \<and> m \<le> startMs n"
  by (auto simp: t0Step_def split: option.splits)

lemma foldl_t0Step_le_head:
  "tr \<in> set tracks \<Longrightarrow> snd tr = n # ns \<Longrightarrow>
   \<exists>m. foldl t0Step acc tracks = Some m \<and> m \<le> startMs n"
proof (induction tracks arbitrary: acc)
  case Nil
  then show ?case by simp
next
  case (Cons x tracks)
  show ?case
  proof (cases "tr = x")
    case True
    obtain m1 where m1: "t0Step acc x = Some m1" "m1 \<le> startMs n"
      using t0Step_head [OF Cons.prems(2)] True by blast
    obtain m2 where "foldl t0Step (Some m1) tracks = Some m2" "m2 \<le> m1"
      using foldl_t0Step_Some by blast
    then show ?thesis using m1 by auto
  next
    case False
    then have "tr \<in> set tracks" using Cons.prems(1) by simp
    then show ?thesis using Cons.IH [OF _ Cons.prems(2)] by simp
  qed
qed

lemma foldl_t0Step_attained:
  "foldl t0Step acc tracks = Some m \<Longrightarrow>
   acc = Some m \<or> (\<exists>tr \<in> set tracks. \<exists>n ns. snd tr = n # ns \<and> startMs n = m)"
proof (induction tracks arbitrary: acc)
  case Nil
  then show ?case by simp
next
  case (Cons x tracks)
  from Cons.IH [of "t0Step acc x"] Cons.prems
  consider "t0Step acc x = Some m"
    | "\<exists>tr \<in> set tracks. \<exists>n ns. snd tr = n # ns \<and> startMs n = m"
    by auto
  then show ?case
  proof cases
    case 1
    then show ?thesis
      by (auto simp: t0Step_def split: list.splits option.splits if_splits)
  next
    case 2
    then show ?thesis by auto
  qed
qed

lemma t0Global_least:
  assumes "tracksSorted tracks" and "a \<in> set (trackNotes tracks)"
  shows "t0Global tracks \<le> startMs a"
    and "\<exists>m \<in> set (trackNotes tracks). startMs m = t0Global tracks"
proof -
  obtain tr where tr: "tr \<in> set tracks" "a \<in> set (snd tr)"
    using assms(2) by (auto simp: trackNotes_def)
  then obtain n ns where ns: "snd tr = n # ns"
    by (cases "snd tr") auto
  obtain m where m: "foldl t0Step None tracks = Some m" "m \<le> startMs n"
    using foldl_t0Step_le_head [OF tr(1) ns] by blast
  have "sorted (map startMs (n # ns))"
    using assms(1) tr(1) ns by (auto simp: tracksSorted_def)
  then have "startMs n \<le> startMs a"
    using tr(2) ns by auto
  then show "t0Global tracks \<le> startMs a"
    using m by (simp add: t0Global_def)
  obtain tr' n' ns' where "tr' \<in> set tracks" "snd tr' = n' # ns'" "startMs n' = m"
    using foldl_t0Step_attained [OF m(1)] by auto
  then have "n' \<in> set (trackNotes tracks)" "startMs n' = t0Global tracks"
    using m(1) by (auto simp: trackNotes_def t0Global_def intro!: bexI [of _ tr'])
  then show "\<exists>m \<in> set (trackNotes tracks). startMs m = t0Global tracks"
    by blast
qed

lemma reconstructNotes_sorted: "tracksSorted (reconstructNotes grp evs ws we)"
  by (auto simp: tracksSorted_def reconstructNotes_def)

lemma buildMidi_tracks:
  "buildMidi fl True tracks bpm =
     Inr (map (\<lambda>(k, ns). \<lparr>tempo = bpm, timeSignature = (4, 4, 24, 8), trackName = k,
                         trackEvents = map (encodeNote fl (t0Global tracks) bpm) ns\<rparr>) tracks)"
proof -
  have "(if ns = [] then [] else map (encodeNote fl (t0Global tracks) bpm) ns) =
      map (encodeNote fl (t0Global tracks) bpm) ns" for ns
    by simp
  then show ?thesis
    by (simp add: buildMidi_def Let_def)
qed

subsection \<open>Encoding: ticks under the platform's rounding\<close>

lemma fl_near:
  assumes "ieeeRounding fl" and "1 / 1000 \<le> x" and "x \<le> 1000000"
  shows "\<bar>fl x - x\<bar> \<le> 1 / 1000000000"
proof -
  have "(1::real) / 2 ^ 1022 \<le> 1 / 1000" by simp
  then have lo: "1 / 2 ^ 1022 \<le> \<bar>x\<bar>" using assms(2) by linarith
  have "(1000000::real) \<le> 2 ^ 1023" by simp
  then have hi: "\<bar>x\<bar> \<le> 2 ^ 1023" using assms(2,3) by linarith
  have "\<bar>fl x - x\<bar> \<le> \<bar>x\<bar> / 2 ^ 53"
    using assms(1) lo hi unfolding ieeeRounding_def by blast
  also have "\<dots> \<le> 1000000 / 2 ^ 53"
    using assms(2,3) by (simp add: divide_right_mono)
  also have "\<dots> \<le> 1 / 1000000000" by simp
  finally show ?thesis .
qed

lemma msToTicks_zero: "ieeeRounding fl \<Longrightarrow> msToTicks fl (fl (0 - 0)) bpm ppq = 1"
  by (simp add: msToTicks_def ieeeRounding_def)

text \<open>
  At 120 beats per minute a span of \<^verbatim>\<open>m\<close> milliseconds, \<^verbatim>\<open>m\<close> between 500 and 1000, that
  lasts a whole number \<^verbatim>\<open>N\<close> of ticks is given \<^verbatim>\<open>N\<close> ticks: the rounding errors of the
  three operations stay far below half a tick.
\<close>

lemma msToTicks_whole:
  assumes fl: "ieeeRounding fl"
    and m: "500 \<le> m" "m \<le> 1000"
    and N: "real_of_int N = (m / 60000) * (120 * PPQ)"
  shows "msToTicks fl (fl m) 120 PPQ = N"
proof -
  define ms where "ms = fl m"
  define b where "b = fl (ms / 60000)"
  define c where "c = fl (120 * PPQ)"
  define d where "d = fl (b * c)"
  have "\<bar>ms - m\<bar> \<le> 1 / 1000000000"
    unfolding ms_def using fl m by (intro fl_near) simp_all
  then have ms: "m - 1 / 1000000000 \<le> ms" "ms \<le> m + 1 / 1000000000"
    by linarith+
  have q: "1 / 1000 \<le> ms / 60000" "ms / 60000 \<le> 1000000"
    using ms m by linarith+
  have "\<bar>b - ms / 60000\<bar> \<le> 1 / 1000000000"
    unfolding b_def using fl q by (rule fl_near)
  then have b: "\<bar>b - m / 60000\<bar> \<le> 2 / 1000000000"
    using ms by linarith
  have "\<bar>c - 120 * 128\<bar> \<le> 1 / 1000000000"
    unfolding c_def PPQ_def using fl by (intro fl_near) simp_all
  then have c: "\<bar>c - 15360\<bar> \<le> 1 / 1000000000"
    by simp
  have cb: "\<bar>c\<bar> \<le> 15361" using c by linarith
  have mb: "\<bar>m / 60000\<bar> \<le> 1" using m by linarith
  have "b * c - real_of_int N = (b - m / 60000) * c + (m / 60000) * (c - 15360)"
    by (simp add: N PPQ_def field_simps)
  then have "\<bar>b * c - real_of_int N\<bar> \<le>
      \<bar>b - m / 60000\<bar> * \<bar>c\<bar> + \<bar>m / 60000\<bar> * \<bar>c - 15360\<bar>"
    by (metis abs_mult abs_triangle_ineq)
  also have "\<dots> \<le> (2 / 1000000000) * 15361 + 1 * (1 / 1000000000)"
    by (intro add_mono mult_mono b cb mb c abs_ge_zero) simp_all
  also have "\<dots> \<le> 1 / 10000" by simp
  finally have bc: "\<bar>b * c - real_of_int N\<bar> \<le> 1 / 10000" .
  have "real_of_int N = m * (32 / 125)"
    by (simp add: N PPQ_def)
  then have Nb: "128 \<le> real_of_int N" "real_of_int N \<le> 256"
    using m by linarith+
  have r: "1 / 1000 \<le> b * c" "b * c \<le> 1000000"
    using bc Nb by linarith+
  have "\<bar>d - b * c\<bar> \<le> 1 / 1000000000"
    unfolding d_def using fl r by (rule fl_near)
  then have "\<bar>d - real_of_int N\<bar> < 1 / 2"
    using bc by linarith
  then have "round d = N"
    by (rule round_unique')
  moreover have "1 \<le> N" using Nb by linarith
  ultimately show ?thesis
    by (simp add: msToTicks_def d_def c_def b_def ms_def)
qed

lemma velocity_full:
  assumes fl: "ieeeRounding fl"
  shows "clamp (round (fl (fl 1 * 100))) 1 100 = 100"
proof -
  define a where "a = fl 1"
  have a: "\<bar>a - 1\<bar> \<le> 1 / 1000000000"
    unfolding a_def using fl by (intro fl_near) simp_all
  then have r: "1 / 1000 \<le> a * 100" "a * 100 \<le> 1000000"
    by linarith+
  have "\<bar>fl (a * 100) - a * 100\<bar> \<le> 1 / 1000000000"
    using fl r by (rule fl_near)
  then have "\<bar>fl (a * 100) - 100\<bar> < 1 / 2"
    using a by linarith
  then have "\<bar>fl (a * 100) - real_of_int 100\<bar> < 1 / 2"
    by simp
  then have "round (fl (a * 100)) = 100"
    by (rule round_unique')
  then show ?thesis
    by (simp add: a_def clamp_def)
qed

text \<open>
  C7. The claim holds of the code's design (one base for all tracks, the least start),
  but the code breaks it: with a note at 0 ms on one track and a note at 1000 ms on
  another, at 120 beats per minute, the 1000 ms between the onsets are exactly 256 ticks,
  and the encoder places the first note at tick 1 and the second at tick 256, 255 ticks
  apart. The lower bound of one tick that \<^verbatim>\<open>msToTicks\<close> gives a duration is also applied to
  the start tick, so the earliest onset is not at tick 0. This holds for every rounding of
  the platform's arithmetic that \<^const>\<open>ieeeRounding\<close> admits.
\<close>

theorem rebase_offset_changed:
  assumes "ieeeRounding fl"
  shows "t0Global twoOnsets = 0 \<and>
         exactTicks (1000 - 0) 120 = 256 \<and>
         buildMidi fl True twoOnsets 120 =
           Inr [\<lparr>tempo = 120, timeSignature = (4, 4, 24, 8), trackName = TrackCh 1,
                 trackEvents =
                   [\<lparr>pitch = Num 60, duration = 128, velocity = 100, channel = 1, tick = 1\<rparr>]\<rparr>,
                \<lparr>tempo = 120, timeSignature = (4, 4, 24, 8), trackName = TrackCh 2,
                 trackEvents =
                   [\<lparr>pitch = Num 64, duration = 128, velocity = 100, channel = 2, tick = 256\<rparr>]\<rparr>]"
proof -
  have t0: "t0Global twoOnsets = 0"
    by (simp add: t0Global_def t0Step_def twoOnsets_def)
  have ex: "exactTicks (1000 - 0) 120 = 256"
    by (simp add: exactTicks_def PPQ_def)
  have d: "msToTicks fl (fl 500) 120 PPQ = 128"
    using assms by (rule msToTicks_whole) (simp_all add: PPQ_def)
  have s: "msToTicks fl (fl 1000) 120 PPQ = 256"
    using assms by (rule msToTicks_whole) (simp_all add: PPQ_def)
  have z: "msToTicks fl (fl 0) 120 PPQ = 1"
    using msToTicks_zero [OF assms, of 120 PPQ] by simp
  have v: "clamp (round (fl (fl 1 * 100))) 1 100 = 100"
    using assms by (rule velocity_full)
  have "buildMidi fl True twoOnsets 120 =
      Inr [\<lparr>tempo = 120, timeSignature = (4, 4, 24, 8), trackName = TrackCh 1,
            trackEvents =
              [\<lparr>pitch = Num 60, duration = 128, velocity = 100, channel = 1, tick = 1\<rparr>]\<rparr>,
           \<lparr>tempo = 120, timeSignature = (4, 4, 24, 8), trackName = TrackCh 2,
            trackEvents =
              [\<lparr>pitch = Num 64, duration = 128, velocity = 100, channel = 2, tick = 256\<rparr>]\<rparr>]"
    unfolding buildMidi_tracks t0
    by (simp add: twoOnsets_def encodeNote_def d s z v)
  then show ?thesis using t0 ex by simp
qed

theorem rebase_offset_changed_witness:
  "ieeeRounding (\<lambda>x. x) \<and>
   buildMidi (\<lambda>x. x) True twoOnsets 120 =
     Inr [\<lparr>tempo = 120, timeSignature = (4, 4, 24, 8), trackName = TrackCh 1,
           trackEvents =
             [\<lparr>pitch = Num 60, duration = 128, velocity = 100, channel = 1, tick = 1\<rparr>]\<rparr>,
          \<lparr>tempo = 120, timeSignature = (4, 4, 24, 8), trackName = TrackCh 2,
           trackEvents =
             [\<lparr>pitch = Num 64, duration = 128, velocity = 100, channel = 2, tick = 256\<rparr>]\<rparr>]"
proof -
  have i: "ieeeRounding (\<lambda>x. x)"
    by (simp add: ieeeRounding_def)
  show ?thesis
    using rebase_offset_changed [OF i] i by simp
qed

subsection \<open>Replay: notes are only added\<close>

lemma pushNote_mono: "set acc \<subseteq> set (pushNote ws we c n tOn tOff v acc)"
  by (auto simp: pushNote_def Let_def)

lemma pushNote_in:
  "ws \<le> tOn \<Longrightarrow> tOn < tOff \<Longrightarrow> tOff \<le> we \<Longrightarrow>
   pushNote ws we c n tOn tOff v acc =
     acc @ [\<lparr>ni_ch = c, ni_note = n, startMs = tOn, endMs = tOff, ni_vel = v\<rparr>]"
  by (simp add: pushNote_def Let_def)

lemma flushKeys_fields [simp]:
  "r_sustain (flushKeys ws we c t ks st) = r_sustain st"
  "r_pending (flushKeys ws we c t ks st) = r_pending st"
  by (induction ks arbitrary: st; simp split: option.splits)+

lemma flushKeys_mono: "set (r_notes st) \<subseteq> set (r_notes (flushKeys ws we c t ks st))"
proof (induction ks arbitrary: st)
  case Nil
  then show ?case by simp
next
  case (Cons k ks)
  show ?case
  proof (cases "map_of (r_active st) k")
    case None
    then show ?thesis using Cons.IH [of st] by simp
  next
    case (Some p)
    obtain tOn v where p: "p = (tOn, v)" by (cases p)
    let ?st = "st\<lparr>r_notes := pushNote ws we c (parseNote k) tOn t v (r_notes st),
                   r_active := AList.delete k (r_active st)\<rparr>"
    have "set (r_notes st) \<subseteq> set (r_notes ?st)"
      using pushNote_mono by simp
    also have "\<dots> \<subseteq> set (r_notes (flushKeys ws we c t ks ?st))"
      by (rule Cons.IH)
    finally show ?thesis using Some p by simp
  qed
qed

lemma closeNote_mono: "set (r_notes st) \<subseteq> set (r_notes (closeNote ws we t c n st))"
  using pushNote_mono [of "r_notes st"]
  by (auto simp: closeNote_def split: option.splits)

lemma replayEvent_mono: "set (r_notes st) \<subseteq> set (r_notes (replayEvent ws we e st))"
proof (cases e)
  case (ControlChange t c cc val src)
  have "set (r_notes st) \<subseteq> set (r_notes (flushKeys ws we c t ks (st\<lparr>r_sustain := m\<rparr>)))"
    for ks m
    using flushKeys_mono [of "st\<lparr>r_sustain := m\<rparr>"] by simp
  then show ?thesis using ControlChange by (simp add: Let_def)
qed (simp_all add: closeNote_mono)

lemma replay_mono: "set (r_notes st) \<subseteq> set (r_notes (replay ws we evs st))"
proof (induction evs arbitrary: st)
  case Nil
  then show ?case by simp
next
  case (Cons e evs)
  have "set (r_notes st) \<subseteq> set (r_notes (replayEvent ws we e st))"
    by (rule replayEvent_mono)
  also have "\<dots> \<subseteq> set (r_notes (replay ws we evs (replayEvent ws we e st)))"
    by (rule Cons.IH)
  finally show ?case by (simp add: replay_Cons)
qed

lemma closeOpen_mono: "set acc \<subseteq> set (closeOpen ws we act acc)"
  unfolding closeOpen_def
proof (induction act arbitrary: acc)
  case Nil
  then show ?case by simp
next
  case (Cons a act)
  obtain k tOn v where a: "a = (k, (tOn, v))" by (cases a) auto
  have "set acc \<subseteq> set (pushNote ws we (parseCh k) (parseNote k) tOn we v acc)"
    by (rule pushNote_mono)
  also have "\<dots> \<subseteq> set (foldl (\<lambda>ns (k, (tOn, v)).
      pushNote ws we (parseCh k) (parseNote k) tOn we v ns)
      (pushNote ws we (parseCh k) (parseNote k) tOn we v acc) act)"
    by (rule Cons.IH)
  finally show ?case using a by simp
qed

lemma allNotes_of_prefix:
  "set (r_notes (replay ws we pre r_init)) \<subseteq> set (allNotes (pre @ post) ws we)"
proof -
  have "set (r_notes (replay ws we pre r_init))
      \<subseteq> set (r_notes (replay ws we (pre @ post) r_init))"
    using replay_mono by (simp add: replay_append)
  also have "\<dots> \<subseteq> set (allNotes (pre @ post) ws we)"
    using closeOpen_mono by (simp add: allNotes_def Let_def)
  finally show ?thesis .
qed

subsection \<open>Grouping: a note lands in the track of its channel\<close>

lemma set_update_subset: "set (AList.update k v m) \<subseteq> insert (k, v) (set m)"
  by (induction m) auto

lemma addToTrack_keys:
  assumes A: "\<forall>p \<in> set m. \<forall>x \<in> set (snd p). fst p = trackKeyFor grp (ni_ch x)"
  shows "\<forall>p \<in> set (addToTrack grp m n). \<forall>x \<in> set (snd p). fst p = trackKeyFor grp (ni_ch x)"
proof (intro ballI)
  fix p x
  assume p: "p \<in> set (addToTrack grp m n)" and x: "x \<in> set (snd p)"
  define k where "k = trackKeyFor grp (ni_ch n)"
  define old where "old = (case map_of m k of None \<Rightarrow> [] | Some ns \<Rightarrow> ns)"
  have upd: "addToTrack grp m n = AList.update k (old @ [n]) m"
    by (simp add: addToTrack_def k_def old_def Let_def)
  have oldk: "k = trackKeyFor grp (ni_ch y)" if y: "y \<in> set old" for y
  proof (cases "map_of m k")
    case None
    then show ?thesis using y by (simp add: old_def)
  next
    case (Some ns)
    then have "(k, ns) \<in> set m" by (rule map_of_SomeD)
    with A have "\<forall>x \<in> set (snd (k, ns)). fst (k, ns) = trackKeyFor grp (ni_ch x)"
      by (rule bspec)
    moreover have "y \<in> set ns" using y Some by (simp add: old_def)
    ultimately show ?thesis by simp
  qed
  have "p \<in> insert (k, old @ [n]) (set m)"
    using p set_update_subset [of k "old @ [n]" m] unfolding upd by (rule subsetD [rotated])
  then consider "p = (k, old @ [n])" | "p \<in> set m" by blast
  then show "fst p = trackKeyFor grp (ni_ch x)"
  proof cases
    case 1
    then have "x \<in> set old \<or> x = n" using x by auto
    then show ?thesis
    proof
      assume "x \<in> set old"
      then show ?thesis using oldk 1 by simp
    next
      assume "x = n"
      then show ?thesis using 1 by (simp add: k_def)
    qed
  next
    case 2
    with A have "\<forall>x \<in> set (snd p). fst p = trackKeyFor grp (ni_ch x)" by (rule bspec)
    then show ?thesis using x by (rule bspec)
  qed
qed

lemma foldl_addToTrack_keys:
  assumes "\<forall>p \<in> set m. \<forall>x \<in> set (snd p). fst p = trackKeyFor grp (ni_ch x)"
  shows "\<forall>p \<in> set (foldl (addToTrack grp) m ns). \<forall>x \<in> set (snd p).
           fst p = trackKeyFor grp (ni_ch x)"
  using assms
proof (induction ns arbitrary: m)
  case Nil
  then show ?case by simp
next
  case (Cons n ns)
  show ?case using Cons.IH [OF addToTrack_keys [OF Cons.prems]] by simp
qed

lemma reconstructNotes_track:
  assumes "n \<in> set (allNotes evs ws we)"
  shows "\<exists>ns. (trackKeyFor grp (ni_ch n), ns) \<in> set (reconstructNotes grp evs ws we) \<and>
              n \<in> set ns"
proof -
  obtain k ns where kn: "(k, ns) \<in> set (reconstructNotes grp evs ws we)" "n \<in> set ns"
    using assms reconstructNotes_set by blast
  have "(k, ns) \<in> (\<lambda>(k, ns). (k, sort_key startMs ns)) `
      set (foldl (addToTrack grp) [] (allNotes evs ws we))"
    using kn(1) by (simp add: reconstructNotes_def)
  then obtain p where p: "p \<in> set (foldl (addToTrack grp) [] (allNotes evs ws we))"
      "(k, ns) = (\<lambda>(k, ns). (k, sort_key startMs ns)) p"
    by (rule imageE)
  obtain k0 ns0 where p0: "p = (k0, ns0)"
    by (cases p)
  have ns0: "(k, ns0) \<in> set (foldl (addToTrack grp) [] (allNotes evs ws we))"
    "ns = sort_key startMs ns0"
    using p p0 by simp_all
  have "\<forall>p \<in> set (foldl (addToTrack grp) [] (allNotes evs ws we)). \<forall>x \<in> set (snd p).
      fst p = trackKeyFor grp (ni_ch x)"
    by (rule foldl_addToTrack_keys) simp
  moreover have "n \<in> set (snd (k, ns0))"
    using ns0(2) kn(2) by simp
  ultimately have "fst (k, ns0) = trackKeyFor grp (ni_ch n)"
    using ns0(1) by blast
  then have "k = trackKeyFor grp (ni_ch n)"
    by simp
  then show ?thesis using kn by blast
qed

subsection \<open>Replay: pedal, pending sets and active notes\<close>

lemma closeNote_sustain [simp]: "r_sustain (closeNote ws we t c n st) = r_sustain st"
  by (simp add: closeNote_def split: option.splits)

lemma replayEvent_sustain:
  "(r_sustain (replayEvent ws we e st) c = Some True) =
     pedalAfter c (r_sustain st c = Some True) e"
  by (cases e) (auto simp: Let_def)

lemma replay_sustain:
  "(r_sustain (replay ws we evs st) c = Some True) =
     foldl (pedalAfter c) (r_sustain st c = Some True) evs"
proof (induction evs arbitrary: st)
  case Nil
  then show ?case by simp
next
  case (Cons e evs)
  show ?case
    by (simp add: replay_Cons Cons.IH replayEvent_sustain)
qed

lemma replay_pedalHeld:
  "(r_sustain (replay ws we evs r_init) c = Some True) = pedalHeld c evs"
  by (simp add: replay_sustain pedalHeld_def r_init_def)

lemma pendingOwnD: "pendingOwn st \<Longrightarrow> k \<in> set (ensureSet (r_pending st) c) \<Longrightarrow> fst k = c"
  unfolding pendingOwn_def by blast

lemma pendingOwn_init: "pendingOwn r_init"
  by (simp add: pendingOwn_def r_init_def ensureSet_def)

lemma pendingOwn_closeNote: "pendingOwn st \<Longrightarrow> pendingOwn (closeNote ws we t c n st)"
  by (auto simp: pendingOwn_def closeNote_def ensureSet_upd set_add_def split: option.splits)

lemma pendingOwn_replayEvent: "pendingOwn st \<Longrightarrow> pendingOwn (replayEvent ws we e st)"
proof (cases e)
  case (ControlChange t c cc val src)
  assume "pendingOwn st"
  then show ?thesis
    using ControlChange by (auto simp: pendingOwn_def Let_def ensureSet_upd)
next
  case (NoteOn t c n v src)
  assume "pendingOwn st"
  then show ?thesis using NoteOn by (simp add: pendingOwn_def)
next
  case (NoteOff t c n src)
  assume "pendingOwn st"
  then show ?thesis using NoteOff by (simp add: pendingOwn_closeNote)
next
  case (NoteOffDeferred t c n src)
  assume "pendingOwn st"
  then show ?thesis using NoteOffDeferred by (simp add: pendingOwn_closeNote)
qed simp_all

lemma pendingOwn_replay: "pendingOwn st \<Longrightarrow> pendingOwn (replay ws we evs st)"
proof (induction evs arbitrary: st)
  case Nil
  then show ?case by simp
next
  case (Cons e evs)
  show ?case
    using Cons.IH [OF pendingOwn_replayEvent [OF Cons.prems]] by (simp add: replay_Cons)
qed

lemma flushKeys_active_other:
  "k \<notin> set ks \<Longrightarrow> map_of (r_active (flushKeys ws we c t ks st)) k = map_of (r_active st) k"
proof (induction ks arbitrary: st)
  case Nil
  then show ?case by simp
next
  case (Cons k' ks)
  then have ne: "k \<noteq> k'" and notin: "k \<notin> set ks" by auto
  show ?case
  proof (cases "map_of (r_active st) k'")
    case None
    then show ?thesis using Cons.IH [OF notin, of st] by simp
  next
    case (Some p)
    obtain tOn v where p: "p = (tOn, v)" by (cases p)
    let ?st = "st\<lparr>r_notes := pushNote ws we c (parseNote k') tOn t v (r_notes st),
                   r_active := AList.delete k' (r_active st)\<rparr>"
    have "map_of (r_active (flushKeys ws we c t ks ?st)) k = map_of (r_active ?st) k"
      by (rule Cons.IH [OF notin])
    then show ?thesis using Some p ne by simp
  qed
qed

lemma flushKeys_pushes:
  assumes "k \<in> set ks" and "map_of (r_active st) k = Some (tOn, v)"
    and "ws \<le> tOn" and "tOn < t" and "t \<le> we"
  shows "\<lparr>ni_ch = c, ni_note = parseNote k, startMs = tOn, endMs = t, ni_vel = v\<rparr>
           \<in> set (r_notes (flushKeys ws we c t ks st))"
  using assms(1,2)
proof (induction ks arbitrary: st)
  case Nil
  then show ?case by simp
next
  case (Cons k' ks)
  let ?n = "\<lparr>ni_ch = c, ni_note = parseNote k, startMs = tOn, endMs = t, ni_vel = v\<rparr>"
  show ?case
  proof (cases "k' = k")
    case True
    let ?st = "st\<lparr>r_notes := pushNote ws we c (parseNote k) tOn t v (r_notes st),
                   r_active := AList.delete k (r_active st)\<rparr>"
    have "?n \<in> set (r_notes ?st)"
      using assms(3-5) by (simp add: pushNote_in)
    then have "?n \<in> set (r_notes (flushKeys ws we c t ks ?st))"
      using flushKeys_mono by blast
    then show ?thesis using True Cons.prems(2) by simp
  next
    case False
    then have mem: "k \<in> set ks" using Cons.prems(1) by simp
    show ?thesis
    proof (cases "map_of (r_active st) k'")
      case None
      then show ?thesis using Cons.IH [OF mem Cons.prems(2)] by simp
    next
      case (Some p)
      obtain tOn' v' where p: "p = (tOn', v')" by (cases p)
      let ?st = "st\<lparr>r_notes := pushNote ws we c (parseNote k') tOn' t v' (r_notes st),
                     r_active := AList.delete k' (r_active st)\<rparr>"
      have "map_of (r_active ?st) k = Some (tOn, v)"
        using Cons.prems(2) False by simp
      then have "?n \<in> set (r_notes (flushKeys ws we c t ks ?st))"
        by (rule Cons.IH [OF mem])
      then show ?thesis using Some p by simp
    qed
  qed
qed

text \<open>Events that neither name the key nor release its channel's pedal leave its note.\<close>

lemma replayEvent_keeps_active:
  assumes "pendingOwn st" and "\<not> touchesKey (c, n) e" and "\<not> isPedalUp c e"
  shows "map_of (r_active (replayEvent ws we e st)) (c, n) = map_of (r_active st) (c, n)"
proof (cases e)
  case (ControlChange t c' cc val src)
  show ?thesis
  proof (cases "cc = Num 64 \<and> r_sustain st c' = Some True \<and> \<not> val \<ge> 64")
    case True
    then have "c' \<noteq> c" using assms(3) ControlChange by auto
    then have "(c, n) \<notin> set (ensureSet (r_pending st) c')"
      using pendingOwnD [OF assms(1), of "(c, n)" c'] by auto
    then have "map_of (r_active (flushKeys ws we c' t (ensureSet (r_pending st) c')
        (st\<lparr>r_sustain := (r_sustain st)(c' \<mapsto> False)\<rparr>))) (c, n) = map_of (r_active st) (c, n)"
      by (simp add: flushKeys_active_other)
    then show ?thesis using True ControlChange by (simp add: Let_def)
  next
    case False
    then show ?thesis using ControlChange by (auto simp: Let_def)
  qed
next
  case (NoteOn t c' n' v src)
  then show ?thesis using assms(2) by (auto simp: update_conv')
next
  case (NoteOff t c' n' src)
  then show ?thesis
    using assms(2) by (auto simp: closeNote_def split: option.splits)
next
  case (NoteOffDeferred t c' n' src)
  then show ?thesis
    using assms(2) by (auto simp: closeNote_def split: option.splits)
qed simp_all

lemma replay_keeps_active:
  assumes "pendingOwn st" and "\<forall>e \<in> set evs. \<not> touchesKey (c, n) e \<and> \<not> isPedalUp c e"
  shows "map_of (r_active (replay ws we evs st)) (c, n) = map_of (r_active st) (c, n)"
  using assms
proof (induction evs arbitrary: st)
  case Nil
  then show ?case by simp
next
  case (Cons e evs)
  have "map_of (r_active (replay ws we evs (replayEvent ws we e st))) (c, n) =
      map_of (r_active (replayEvent ws we e st)) (c, n)"
    using Cons.prems by (intro Cons.IH pendingOwn_replayEvent) simp_all
  then show ?case
    using replayEvent_keeps_active [of st c n e ws we] Cons.prems by (simp add: replay_Cons)
qed

lemma set_add_mem: "k \<in> set ks \<Longrightarrow> k \<in> set (set_add k' ks)"
  by (simp add: set_add_def)

lemma set_add_self: "k \<in> set (set_add k ks)"
  by (simp add: set_add_def)

lemma closeNote_waiting:
  assumes "waiting (c, n) tOn v st"
  shows "waiting (c, n) tOn v (closeNote ws we t c' n' st)"
proof (cases "map_of (r_active st) (c', n')")
  case None
  then show ?thesis using assms by (simp add: closeNote_def)
next
  case (Some p)
  obtain tOn' v' where p: "p = (tOn', v')" by (cases p)
  have own: "pendingOwn (closeNote ws we t c' n' st)"
    using assms by (simp add: waiting_def pendingOwn_closeNote)
  show ?thesis
  proof (cases "r_sustain st c' = Some True")
    case True
    then have eq: "closeNote ws we t c' n' st =
        st\<lparr>r_pending := (r_pending st)(c' \<mapsto> set_add (c', n') (ensureSet (r_pending st) c'))\<rparr>"
      using Some p by (simp add: closeNote_def)
    have "(c, n) \<in> set (ensureSet (r_pending (closeNote ws we t c' n' st)) c)"
      using assms unfolding eq by (auto simp: waiting_def ensureSet_upd intro: set_add_mem)
    then show ?thesis
      using assms own unfolding waiting_def by (simp add: eq)
  next
    case False
    then have ne: "c' \<noteq> c" using assms by (auto simp: waiting_def)
    have eq: "closeNote ws we t c' n' st =
        st\<lparr>r_notes := pushNote ws we c' n' tOn' t v' (r_notes st),
           r_active := AList.delete (c', n') (r_active st)\<rparr>"
      using Some p False by (simp add: closeNote_def)
    show ?thesis
      using assms own ne unfolding waiting_def by (simp add: eq)
  qed
qed

lemma replayEvent_waiting:
  assumes "waiting (c, n) tOn v st" and "\<not> isNoteOnOf (c, n) e" and "\<not> isPedalUp c e"
  shows "waiting (c, n) tOn v (replayEvent ws we e st)"
proof (cases e)
  case (ControlChange t c' cc val src)
  have own: "pendingOwn (replayEvent ws we e st)"
    using assms(1) by (simp add: waiting_def pendingOwn_replayEvent)
  show ?thesis
  proof (cases "cc = Num 64")
    case False
    then show ?thesis using assms(1) ControlChange by simp
  next
    case cc: True
    show ?thesis
    proof (cases "c' = c")
      case True
      then have "val \<ge> 64" using assms(3) ControlChange cc by simp
      then have "replayEvent ws we e st = st\<lparr>r_sustain := (r_sustain st)(c \<mapsto> True)\<rparr>"
        using ControlChange cc True by (simp add: Let_def)
      then show ?thesis using assms(1) own by (simp add: waiting_def)
    next
      case False
      have notin: "(c, n) \<notin> set (ensureSet (r_pending st) c')"
        using pendingOwnD [of st "(c, n)" c'] assms(1) False by (auto simp: waiting_def)
      have act: "map_of (r_active (replayEvent ws we e st)) (c, n) = map_of (r_active st) (c, n)"
        using ControlChange cc notin by (simp add: Let_def flushKeys_active_other)
      have pend: "ensureSet (r_pending (replayEvent ws we e st)) c = ensureSet (r_pending st) c"
        using ControlChange cc False by (simp add: Let_def ensureSet_def)
      have sus: "r_sustain (replayEvent ws we e st) c = r_sustain st c"
        using ControlChange cc False by (simp add: Let_def)
      show ?thesis
        using assms(1) own act pend sus by (simp add: waiting_def)
    qed
  qed
next
  case (NoteOn t c' n' v' src)
  then have "(c', n') \<noteq> (c, n)" using assms(2) by auto
  then show ?thesis
    using assms(1) NoteOn by (auto simp: waiting_def update_conv' pendingOwn_def)
next
  case (NoteOff t c' n' src)
  then show ?thesis using closeNote_waiting [OF assms(1)] by simp
next
  case (NoteOffDeferred t c' n' src)
  then show ?thesis using closeNote_waiting [OF assms(1)] by simp
next
  case (PitchBend t c' b src)
  then show ?thesis using assms(1) by simp
next
  case (Raw t c' bs src)
  then show ?thesis using assms(1) by simp
qed

lemma replay_waiting:
  assumes "waiting (c, n) tOn v st"
    and "\<forall>e \<in> set evs. \<not> isNoteOnOf (c, n) e \<and> \<not> isPedalUp c e"
  shows "waiting (c, n) tOn v (replay ws we evs st)"
  using assms
proof (induction evs arbitrary: st)
  case Nil
  then show ?case by simp
next
  case (Cons e evs)
  have "waiting (c, n) tOn v (replayEvent ws we e st)"
    using Cons.prems by (intro replayEvent_waiting) simp_all
  then have "waiting (c, n) tOn v (replay ws we evs (replayEvent ws we e st))"
    using Cons.prems by (intro Cons.IH) simp_all
  then show ?case by (simp add: replay_Cons)
qed

lemma pedal_up_closes_waiting:
  assumes "waiting (c, n) tOn v st" and "val < 64"
    and "ws \<le> tOn" and "tOn < t" and "t \<le> we"
  shows "\<lparr>ni_ch = c, ni_note = parseNote (c, n), startMs = tOn, endMs = t, ni_vel = v\<rparr>
           \<in> set (r_notes (replayEvent ws we (ControlChange t c (Num 64) val src) st))"
proof -
  let ?st1 = "st\<lparr>r_sustain := (r_sustain st)(c \<mapsto> False)\<rparr>"
  have mem: "(c, n) \<in> set (ensureSet (r_pending ?st1) c)"
    and act: "map_of (r_active ?st1) (c, n) = Some (tOn, v)"
    and was: "r_sustain st c = Some True"
    using assms(1) by (simp_all add: waiting_def)
  have "\<lparr>ni_ch = c, ni_note = parseNote (c, n), startMs = tOn, endMs = t, ni_vel = v\<rparr>
      \<in> set (r_notes (flushKeys ws we c t (ensureSet (r_pending ?st1) c) ?st1))"
    using mem act assms(3-5) by (rule flushKeys_pushes)
  then show ?thesis
    using was assms(2) by (simp add: Let_def)
qed

lemma closeNote_sounding:
  assumes "sounding (c, n) tOn v st" and "(c', n') \<noteq> (c, n)"
  shows "sounding (c, n) tOn v (closeNote ws we t c' n' st)"
proof (cases "map_of (r_active st) (c', n')")
  case None
  then show ?thesis using assms(1) by (simp add: closeNote_def)
next
  case (Some p)
  obtain tOn' v' where p: "p = (tOn', v')" by (cases p)
  have own: "pendingOwn (closeNote ws we t c' n' st)"
    using assms(1) by (simp add: sounding_def pendingOwn_closeNote)
  show ?thesis
  proof (cases "r_sustain st c' = Some True")
    case True
    then have eq: "closeNote ws we t c' n' st =
        st\<lparr>r_pending := (r_pending st)(c' \<mapsto> set_add (c', n') (ensureSet (r_pending st) c'))\<rparr>"
      using Some p by (simp add: closeNote_def)
    have "(c, n) \<notin> set (ensureSet (r_pending (closeNote ws we t c' n' st)) c)"
      using assms unfolding eq by (auto simp: sounding_def ensureSet_upd set_add_def)
    then show ?thesis
      using assms(1) own unfolding sounding_def by (simp add: eq)
  next
    case False
    have eq: "closeNote ws we t c' n' st =
        st\<lparr>r_notes := pushNote ws we c' n' tOn' t v' (r_notes st),
           r_active := AList.delete (c', n') (r_active st)\<rparr>"
      using Some p False by (simp add: closeNote_def)
    have "map_of (AList.delete (c', n') (r_active st)) (c, n) = map_of (r_active st) (c, n)"
      using assms(2) by (auto simp: delete_conv')
    then show ?thesis
      using assms(1) own unfolding sounding_def by (simp add: eq)
  qed
qed

lemma replayEvent_sounding:
  assumes "sounding (c, n) tOn v st" and "\<not> touchesKey (c, n) e"
  shows "sounding (c, n) tOn v (replayEvent ws we e st)"
proof (cases e)
  case (ControlChange t c' cc val src)
  have own: "pendingOwn (replayEvent ws we e st)"
    using assms(1) by (simp add: sounding_def pendingOwn_replayEvent)
  show ?thesis
  proof (cases "cc = Num 64 \<and> r_sustain st c' = Some True \<and> \<not> val \<ge> 64")
    case True
    have notin: "(c, n) \<notin> set (ensureSet (r_pending st) c')"
    proof (cases "c' = c")
      case True
      then show ?thesis using assms(1) by (simp add: sounding_def)
    next
      case False
      then show ?thesis
        using pendingOwnD [of st "(c, n)" c'] assms(1) by (auto simp: sounding_def)
    qed
    have act: "map_of (r_active (replayEvent ws we e st)) (c, n) = map_of (r_active st) (c, n)"
      using ControlChange True notin by (simp add: Let_def flushKeys_active_other)
    have pend: "(c, n) \<notin> set (ensureSet (r_pending (replayEvent ws we e st)) c)"
      using ControlChange True assms(1) by (simp add: Let_def ensureSet_upd sounding_def)
    show ?thesis
      using assms(1) own act pend by (simp add: sounding_def)
  next
    case False
    then have "r_active (replayEvent ws we e st) = r_active st"
      "r_pending (replayEvent ws we e st) = r_pending st"
      using ControlChange by (auto simp: Let_def)
    then show ?thesis
      using assms(1) own by (simp add: sounding_def)
  qed
next
  case (NoteOn t c' n' v' src)
  then have "(c', n') \<noteq> (c, n)" using assms(2) by auto
  then show ?thesis
    using assms(1) NoteOn by (auto simp: sounding_def update_conv' pendingOwn_def)
next
  case (NoteOff t c' n' src)
  then have "(c', n') \<noteq> (c, n)" using assms(2) by auto
  then show ?thesis using closeNote_sounding [OF assms(1)] NoteOff by simp
next
  case (NoteOffDeferred t c' n' src)
  then have "(c', n') \<noteq> (c, n)" using assms(2) by auto
  then show ?thesis using closeNote_sounding [OF assms(1)] NoteOffDeferred by simp
next
  case (PitchBend t c' b src)
  then show ?thesis using assms(1) by simp
next
  case (Raw t c' bs src)
  then show ?thesis using assms(1) by simp
qed

lemma replay_sounding:
  assumes "sounding (c, n) tOn v st" and "\<forall>e \<in> set evs. \<not> touchesKey (c, n) e"
  shows "sounding (c, n) tOn v (replay ws we evs st)"
  using assms
proof (induction evs arbitrary: st)
  case Nil
  then show ?case by simp
next
  case (Cons e evs)
  have "sounding (c, n) tOn v (replayEvent ws we e st)"
    using Cons.prems by (intro replayEvent_sounding) simp_all
  then have "sounding (c, n) tOn v (replay ws we evs (replayEvent ws we e st))"
    using Cons.prems by (intro Cons.IH) simp_all
  then show ?case by (simp add: replay_Cons)
qed

subsection \<open>Grouping: looking a note up in the track of its channel\<close>

lemma map_of_addToTrack:
  "map_of (addToTrack grp m x) k =
     (if k = trackKeyFor grp (ni_ch x)
      then Some ((case map_of m k of None \<Rightarrow> [] | Some ns \<Rightarrow> ns) @ [x])
      else map_of m k)"
  by (simp add: addToTrack_def Let_def update_conv')

lemma foldl_addToTrack_lookup:
  assumes "(\<exists>ns. map_of m k = Some ns \<and> n \<in> set ns) \<or>
           (n \<in> set xs \<and> k = trackKeyFor grp (ni_ch n))"
  shows "\<exists>ns. map_of (foldl (addToTrack grp) m xs) k = Some ns \<and> n \<in> set ns"
  using assms
proof (induction xs arbitrary: m)
  case Nil
  then show ?case by simp
next
  case (Cons x xs)
  have "(\<exists>ns. map_of (addToTrack grp m x) k = Some ns \<and> n \<in> set ns) \<or>
      (n \<in> set xs \<and> k = trackKeyFor grp (ni_ch n))"
    using Cons.prems by (auto simp: map_of_addToTrack)
  then show ?case using Cons.IH by simp
qed

lemma reconstructNotes_lookup:
  assumes "n \<in> set (allNotes evs ws we)"
  shows "\<exists>ns. map_of (reconstructNotes grp evs ws we) (trackKeyFor grp (ni_ch n)) = Some ns \<and>
              n \<in> set ns"
proof -
  obtain ns0 where ns0:
    "map_of (foldl (addToTrack grp) [] (allNotes evs ws we)) (trackKeyFor grp (ni_ch n)) = Some ns0"
    "n \<in> set ns0"
    using foldl_addToTrack_lookup [of "[]" "trackKeyFor grp (ni_ch n)" n "allNotes evs ws we" grp]
      assms by auto
  have "map_of (reconstructNotes grp evs ws we) (trackKeyFor grp (ni_ch n)) =
      Some (sort_key startMs ns0)"
    unfolding reconstructNotes_def by (simp add: map_of_map ns0(1))
  moreover have "n \<in> set (sort_key startMs ns0)"
    using ns0(2) by simp
  ultimately show ?thesis by blast
qed

subsection \<open>The sustain invariant\<close>

text \<open>
  C1 as stated fails. A key released under the pedal and struck again before the pedal
  goes up: the second note-on replaces the first in the map of active notes, so the only
  note returned starts at the second strike and the note struck at 0 is lost. When the
  second strike is then held over a pedal-up at 40 and released at 50 under a pedal that
  goes up at 60, the pedal-up at 40 ends it, as the release of the first strike was still
  waiting, and no note ends at 60. A key struck and released under the pedal with the
  pedal-up at the same clock reading: the note has no length and nothing is returned.
\<close>

theorem sustain_counterexample:
  "reconstructNotes False restruck 0 50 =
     [(TrackMain, [\<lparr>ni_ch = 1, ni_note = Num 60, startMs = 30, endMs = 40, ni_vel = 90\<rparr>])] \<and>
   reconstructNotes False restruckPumped 0 100 =
     [(TrackMain, [\<lparr>ni_ch = 1, ni_note = Num 60, startMs = 30, endMs = 40, ni_vel = 90\<rparr>])] \<and>
   reconstructNotes False sameInstant 0 10 = []"
  by (simp add: restruck_def restruckPumped_def sameInstant_def reconstructNotes_def
      allNotes_def replay_def r_init_def closeNote_def pushNote_def closeOpen_def
      ensureSet_def set_add_def addToTrack_def trackKeyFor_def Let_def)

text \<open>
  C1, amended. Take a slice in which a note of channel \<^verbatim>\<open>c\<close> is struck at \<^verbatim>\<open>tOn\<close>, its
  termination request (\<^verbatim>\<open>noteoff\<close> or \<^verbatim>\<open>noteoff_deferred\<close>) is the next note event of its
  key and finds the channel's pedal down, and the next pedal release of the channel comes
  at \<^verbatim>\<open>tUp\<close>. If the key is not struck again before that pedal-up, was not struck while
  an earlier release of it was waiting for a pedal-up that comes before the termination,
  and the onset is strictly before the pedal-up with both in the window, then the track
  of channel \<^verbatim>\<open>c\<close> in the result holds the note from \<^verbatim>\<open>tOn\<close> to \<^verbatim>\<open>tUp\<close>: its end is the
  time of the pedal-up, whatever the time \<^verbatim>\<open>tRel\<close> of the physical release was. The pedal
  may be pressed and released any number of times while the key is held.
\<close>

theorem sustained_note_ends_at_pedal_up:
  assumes "evs = pre @ [NoteOn tOn c n v s1] @ a @ [rel] @ b @
                 [ControlChange tUp c (Num 64) val s3] @ post"
    and "rel = NoteOff tRel c n s2 \<or> rel = NoteOffDeferred tRel c n s2"
    and "pedalHeld c (pre @ [NoteOn tOn c n v s1] @ a)"
    and "\<forall>e \<in> set a. \<not> touchesKey (c, n) e"
    and "(c, n) \<notin> set (ensureSet (r_pending (replay ws we pre r_init)) c) \<or>
         (\<forall>e \<in> set a. \<not> isPedalUp c e)"
    and "\<forall>e \<in> set b. \<not> isNoteOnOf (c, n) e \<and> \<not> isPedalUp c e"
    and "val < 64"
    and "ws \<le> tOn" and "tOn < tUp" and "tUp \<le> we"
  shows "\<exists>ns. map_of (reconstructNotes grp evs ws we) (trackKeyFor grp c) = Some ns \<and>
              \<lparr>ni_ch = c, ni_note = parseNote (c, n), startMs = tOn, endMs = tUp, ni_vel = v\<rparr>
                \<in> set ns"
proof -
  let ?note = "\<lparr>ni_ch = c, ni_note = parseNote (c, n), startMs = tOn, endMs = tUp, ni_vel = v\<rparr>"
  let ?on = "NoteOn tOn c n v s1"
  let ?up = "ControlChange tUp c (Num 64) val s3"
  define st0 where "st0 = replay ws we pre r_init"
  define st1 where "st1 = replayEvent ws we ?on st0"
  define st2 where "st2 = replay ws we a st1"
  define st3 where "st3 = replayEvent ws we rel st2"
  define st4 where "st4 = replay ws we b st3"
  define st5 where "st5 = replayEvent ws we ?up st4"
  have own0: "pendingOwn st0"
    unfolding st0_def by (intro pendingOwn_replay pendingOwn_init)
  have own1: "pendingOwn st1"
    unfolding st1_def using own0 by (rule pendingOwn_replayEvent)
  have own2: "pendingOwn st2"
    unfolding st2_def using own1 by (rule pendingOwn_replay)
  have act1: "map_of (r_active st1) (c, n) = Some (tOn, v)"
    by (simp add: st1_def update_conv')
  have pend1: "r_pending st1 = r_pending st0"
    by (simp add: st1_def)
  have act2: "map_of (r_active st2) (c, n) = Some (tOn, v)"
    using assms(5)
  proof
    assume "(c, n) \<notin> set (ensureSet (r_pending (replay ws we pre r_init)) c)"
    then have "sounding (c, n) tOn v st1"
      using act1 own1 by (simp add: sounding_def pend1 st0_def)
    then have "sounding (c, n) tOn v st2"
      unfolding st2_def using assms(4) by (rule replay_sounding)
    then show ?thesis by (simp add: sounding_def)
  next
    assume "\<forall>e \<in> set a. \<not> isPedalUp c e"
    then have "\<forall>e \<in> set a. \<not> touchesKey (c, n) e \<and> \<not> isPedalUp c e"
      using assms(4) by simp
    then show ?thesis
      unfolding st2_def using replay_keeps_active [OF own1, of a c n ws we] act1 by simp
  qed
  have "st2 = replay ws we (pre @ [?on] @ a) r_init"
    by (simp add: st2_def st1_def st0_def replay_append replay_Cons)
  then have sus2: "r_sustain st2 c = Some True"
    using assms(3) replay_pedalHeld by simp
  have st3: "st3 = closeNote ws we tRel c n st2"
    unfolding st3_def using assms(2) by auto
  have own3: "pendingOwn st3"
    unfolding st3 using own2 by (rule pendingOwn_closeNote)
  have eq3: "st3 = st2\<lparr>r_pending :=
      (r_pending st2)(c \<mapsto> set_add (c, n) (ensureSet (r_pending st2) c))\<rparr>"
    unfolding st3 using act2 sus2 by (simp add: closeNote_def)
  have "map_of (r_active st3) (c, n) = Some (tOn, v)"
    "(c, n) \<in> set (ensureSet (r_pending st3) c)" "r_sustain st3 c = Some True"
    using act2 sus2 by (simp_all add: eq3 ensureSet_upd set_add_self)
  then have "waiting (c, n) tOn v st3"
    using own3 by (simp add: waiting_def)
  then have "waiting (c, n) tOn v st4"
    unfolding st4_def using assms(6) by (rule replay_waiting)
  then have "?note \<in> set (r_notes st5)"
    unfolding st5_def using assms(7-10) by (rule pedal_up_closes_waiting)
  moreover have "st5 = replay ws we (pre @ [?on] @ a @ [rel] @ b @ [?up]) r_init"
    by (simp add: st5_def st4_def st3_def st2_def st1_def st0_def replay_append replay_Cons)
  moreover have "evs = (pre @ [?on] @ a @ [rel] @ b @ [?up]) @ post"
    using assms(1) by simp
  ultimately have "?note \<in> set (allNotes evs ws we)"
    using allNotes_of_prefix [of ws we "pre @ [?on] @ a @ [rel] @ b @ [?up]" post] by auto
  then show ?thesis
    using reconstructNotes_lookup [of ?note evs ws we grp] by simp
qed

theorem sustained_note_ends_at_pedal_up_witness:
  "pedalHeld 1 ([] @ [NoteOn 0 1 (Num 60) 100 dev] @ [ControlChange 10 1 (Num 64) 127 dev]) \<and>
   (\<exists>ns. map_of (reconstructNotes False scenarioA 0 250) TrackMain = Some ns \<and>
      \<lparr>ni_ch = 1, ni_note = Num 60, startMs = 0, endMs = 200, ni_vel = 100\<rparr> \<in> set ns) \<and>
   pedalHeld 1 ([] @ [NoteOn 0 1 (Num 60) 100 dev] @
     [ControlChange 10 1 (Num 64) 127 dev, ControlChange 20 1 (Num 64) 0 dev,
      ControlChange 30 1 (Num 64) 127 dev]) \<and>
   (\<exists>ns. map_of (reconstructNotes True pumped 0 250) (TrackCh 1) = Some ns \<and>
      \<lparr>ni_ch = 1, ni_note = Num 60, startMs = 0, endMs = 200, ni_vel = 100\<rparr> \<in> set ns)"
proof -
  have e: "scenarioA = [] @ [NoteOn 0 1 (Num 60) 100 dev] @ [ControlChange 10 1 (Num 64) 127 dev] @
      [NoteOffDeferred 50 1 (Num 60) dev] @ [] @ [ControlChange 200 1 (Num 64) 0 dev] @
      [NoteOff 200 1 (Num 60) dev]"
    by (simp add: scenarioA_def)
  have e': "pumped = [] @ [NoteOn 0 1 (Num 60) 100 dev] @
      [ControlChange 10 1 (Num 64) 127 dev, ControlChange 20 1 (Num 64) 0 dev,
       ControlChange 30 1 (Num 64) 127 dev] @
      [NoteOffDeferred 50 1 (Num 60) dev] @ [] @ [ControlChange 200 1 (Num 64) 0 dev] @
      [NoteOff 200 1 (Num 60) dev]"
    by (simp add: pumped_def)
  have r: "NoteOffDeferred 50 1 (Num 60) dev = NoteOff 50 1 (Num 60) dev \<or>
      NoteOffDeferred 50 1 (Num 60) dev = NoteOffDeferred 50 1 (Num 60) dev"
    by simp
  have p: "pedalHeld 1 ([] @ [NoteOn 0 1 (Num 60) 100 dev] @ [ControlChange 10 1 (Num 64) 127 dev])"
    by (simp add: pedalHeld_def)
  have p': "pedalHeld 1 ([] @ [NoteOn 0 1 (Num 60) 100 dev] @
      [ControlChange 10 1 (Num 64) 127 dev, ControlChange 20 1 (Num 64) 0 dev,
       ControlChange 30 1 (Num 64) 127 dev])"
    by (simp add: pedalHeld_def)
  have a: "\<forall>e \<in> set [ControlChange 10 1 (Num 64) 127 dev]. \<not> touchesKey (1, Num 60) e"
    by simp
  have a': "\<forall>e \<in> set [ControlChange 10 1 (Num 64) 127 dev, ControlChange 20 1 (Num 64) 0 dev,
      ControlChange 30 1 (Num 64) 127 dev]. \<not> touchesKey (1, Num 60) e"
    by simp
  have q: "(1, Num 60) \<notin> set (ensureSet (r_pending (replay 0 250 [] r_init)) 1) \<or>
      (\<forall>e \<in> set [ControlChange 10 1 (Num 64) 127 dev]. \<not> isPedalUp 1 e)"
    by simp
  have q': "(1, Num 60) \<notin> set (ensureSet (r_pending (replay 0 250 [] r_init)) 1) \<or>
      (\<forall>e \<in> set [ControlChange 10 1 (Num 64) 127 dev, ControlChange 20 1 (Num 64) 0 dev,
        ControlChange 30 1 (Num 64) 127 dev]. \<not> isPedalUp 1 e)"
    by (simp add: r_init_def ensureSet_def)
  have b: "\<forall>e \<in> set ([] :: event list). \<not> isNoteOnOf (1, Num 60) e \<and> \<not> isPedalUp 1 e"
    by simp
  have v: "(0::nat) < 64" by simp
  have w: "(0::real) \<le> 0" "(0::real) < 200" "(200::real) \<le> 250" by simp_all
  show ?thesis
    using sustained_note_ends_at_pedal_up [OF e r p a q b v w, of False]
      sustained_note_ends_at_pedal_up [OF e' r p' a' q' b v w, of True] p p'
    by (simp add: trackKeyFor_def)
qed

subsection \<open>NoteOn/NoteOff pairs without the pedal\<close>

lemma update_fresh: "map_of al k = None \<Longrightarrow> AList.update k v al = al @ [(k, v)]"
  by (induction al) (auto split: if_splits)

lemma delete_absent: "k \<notin> fst ` set al \<Longrightarrow> AList.delete k al = al"
  by (induction al) auto

lemma closeOne_skip:
  "\<forall>t c n src. e \<noteq> NoteOff t c n src \<Longrightarrow> closeOne (e # es) p = closeOne es p"
  by (cases e) (simp_all add: closeOne_def)

lemma closing_skip:
  assumes "\<forall>t c n src. e \<noteq> NoteOff t c n src"
  shows "closing opn (e # es) = closing opn es"
proof -
  have "closeOne (e # es) = closeOne es"
    using closeOne_skip [OF assms] by (intro ext) simp
  then show ?thesis by (simp add: closing_def)
qed

lemma closeOne_off:
  "closeOne (NoteOff t c n src # es) (k, (tOn, v)) =
     (if k = (c, n)
      then [\<lparr>ni_ch = c, ni_note = n, startMs = tOn, endMs = t, ni_vel = v\<rparr>]
      else closeOne es (k, (tOn, v)))"
  by (auto simp: closeOne_def)

lemma closing_off_absent:
  "(c, n) \<notin> fst ` set opn \<Longrightarrow> closing opn (NoteOff t c n src # es) = closing opn es"
proof (induction opn)
  case Nil
  then show ?case by (simp add: closing_def)
next
  case (Cons p opn)
  obtain k tOn v where p: "p = (k, (tOn, v))" by (cases p) auto
  have "k \<noteq> (c, n)" using Cons.prems p by auto
  moreover have "closing opn (NoteOff t c n src # es) = closing opn es"
    using Cons by simp
  ultimately show ?case
    using p by (simp add: closing_def closeOne_off)
qed

lemma closing_off:
  assumes "distinct (map fst opn)" and "map_of opn (c, n) = Some (tOn, v)"
  shows "mset (closing opn (NoteOff t c n src # es)) =
           {#\<lparr>ni_ch = c, ni_note = n, startMs = tOn, endMs = t, ni_vel = v\<rparr>#} +
           mset (closing (AList.delete (c, n) opn) es)"
  using assms
proof (induction opn)
  case Nil
  then show ?case by simp
next
  case (Cons p opn)
  obtain k tOn' v' where p: "p = (k, (tOn', v'))" by (cases p) auto
  show ?case
  proof (cases "k = (c, n)")
    case True
    then have same: "tOn' = tOn" "v' = v" using Cons.prems(2) p by simp_all
    have absent: "(c, n) \<notin> fst ` set opn"
      using Cons.prems(1) p True by auto
    have "closing opn (NoteOff t c n src # es) = closing opn es"
      using absent by (rule closing_off_absent)
    moreover have "AList.delete (c, n) opn = opn"
      using absent by (rule delete_absent)
    ultimately show ?thesis
      using p True same by (simp add: closing_def closeOne_off)
  next
    case False
    then have "map_of opn (c, n) = Some (tOn, v)" using Cons.prems(2) p by auto
    then have "mset (closing opn (NoteOff t c n src # es)) =
        {#\<lparr>ni_ch = c, ni_note = n, startMs = tOn, endMs = t, ni_vel = v\<rparr>#} +
        mset (closing (AList.delete (c, n) opn) es)"
      using Cons.IH Cons.prems(1) by simp
    then show ?thesis
      using p False by (simp add: closing_def closeOne_off)
  qed
qed

lemma closing_append: "closing (opn @ [p]) es = closing opn es @ closeOne es p"
  by (simp add: closing_def)

lemma replay_paired:
  assumes "paired (r_active st) evs"
    and "\<forall>c. r_sustain st c \<noteq> Some True"
    and "distinct (map fst (r_active st))"
    and "\<forall>p \<in> set (r_active st). ws \<le> fst (snd p)"
    and "\<forall>e \<in> set evs. ws \<le> ev_t e \<and> ev_t e \<le> we"
  shows "r_active (replay ws we evs st) = [] \<and>
         mset (r_notes (replay ws we evs st)) =
           mset (r_notes st) + mset (closing (r_active st) evs) + mset (expectedNotes evs)"
  using assms
proof (induction evs arbitrary: st)
  case Nil
  then show ?case by (simp add: closing_def)
next
  case (Cons e evs)
  show ?case
  proof (cases e)
    case (NoteOn t c n v src)
    let ?st = "st\<lparr>r_active := AList.update (c, n) (t, v) (r_active st)\<rparr>"
    have fresh: "map_of (r_active st) (c, n) = None"
      and p: "paired (AList.update (c, n) (t, v) (r_active st)) evs"
      using Cons.prems(1) NoteOn by simp_all
    have upd: "AList.update (c, n) (t, v) (r_active st) = r_active st @ [((c, n), (t, v))]"
      using fresh by (rule update_fresh)
    have t: "ws \<le> t" using Cons.prems(5) NoteOn by simp
    have ih: "r_active (replay ws we evs ?st) = [] \<and>
        mset (r_notes (replay ws we evs ?st)) =
          mset (r_notes ?st) + mset (closing (r_active ?st) evs) + mset (expectedNotes evs)"
    proof (rule Cons.IH)
      show "paired (r_active ?st) evs" using p by simp
      show "\<forall>c. r_sustain ?st c \<noteq> Some True" using Cons.prems(2) by simp
      show "distinct (map fst (r_active ?st))"
        using Cons.prems(3) by (simp add: distinct_update)
      show "\<forall>p \<in> set (r_active ?st). ws \<le> fst (snd p)"
        using Cons.prems(4) t by (auto simp: upd)
      show "\<forall>e \<in> set evs. ws \<le> ev_t e \<and> ev_t e \<le> we"
        using Cons.prems(5) by simp
    qed
    have "closing (r_active st) (e # evs) = closing (r_active st) evs"
      using NoteOn by (intro closing_skip) simp
    then show ?thesis
      using ih NoteOn by (simp add: replay_Cons upd closing_append)
  next
    case (NoteOff t c n src)
    obtain tOn v where act: "map_of (r_active st) (c, n) = Some (tOn, v)"
      and lt: "tOn < t" and p: "paired (AList.delete (c, n) (r_active st)) evs"
      using Cons.prems(1) NoteOff by (auto split: option.splits)
    have "((c, n), (tOn, v)) \<in> set (r_active st)"
      using act by (rule map_of_SomeD)
    then have lo: "ws \<le> tOn" using Cons.prems(4) by fastforce
    have hi: "t \<le> we" using Cons.prems(5) NoteOff by simp
    let ?note = "\<lparr>ni_ch = c, ni_note = n, startMs = tOn, endMs = t, ni_vel = v\<rparr>"
    let ?st = "st\<lparr>r_notes := r_notes st @ [?note],
                   r_active := AList.delete (c, n) (r_active st)\<rparr>"
    have step: "closeNote ws we t c n st = ?st"
      using act Cons.prems(2) lo lt hi by (simp add: closeNote_def pushNote_in)
    have ih: "r_active (replay ws we evs ?st) = [] \<and>
        mset (r_notes (replay ws we evs ?st)) =
          mset (r_notes ?st) + mset (closing (r_active ?st) evs) + mset (expectedNotes evs)"
    proof (rule Cons.IH)
      show "paired (r_active ?st) evs" using p by simp
      show "\<forall>c. r_sustain ?st c \<noteq> Some True" using Cons.prems(2) by simp
      show "distinct (map fst (r_active ?st))"
        using Cons.prems(3) by (simp add: distinct_delete)
      show "\<forall>p \<in> set (r_active ?st). ws \<le> fst (snd p)"
        using Cons.prems(4) by (auto simp: AList.delete_eq)
      show "\<forall>e \<in> set evs. ws \<le> ev_t e \<and> ev_t e \<le> we"
        using Cons.prems(5) by simp
    qed
    have "mset (closing (r_active st) (e # evs)) =
        {#?note#} + mset (closing (AList.delete (c, n) (r_active st)) evs)"
      unfolding NoteOff using Cons.prems(3) act by (rule closing_off)
    then show ?thesis
      using ih NoteOff by (simp add: replay_Cons step)
  next
    case (NoteOffDeferred t c n src)
    then show ?thesis using Cons.prems(1) by simp
  next
    case (ControlChange t c cc val src)
    then have cc: "cc \<noteq> Num 64" and p: "paired (r_active st) evs"
      using Cons.prems(1) by simp_all
    have "closing (r_active st) (e # evs) = closing (r_active st) evs"
      using ControlChange by (intro closing_skip) simp
    then show ?thesis
      using Cons.IH [OF p Cons.prems(2,3,4)] Cons.prems(5) ControlChange cc
      by (simp add: replay_Cons)
  next
    case (PitchBend t c b src)
    then have p: "paired (r_active st) evs" using Cons.prems(1) by simp
    have "closing (r_active st) (e # evs) = closing (r_active st) evs"
      using PitchBend by (intro closing_skip) simp
    then show ?thesis
      using Cons.IH [OF p Cons.prems(2,3,4)] Cons.prems(5) PitchBend
      by (simp add: replay_Cons)
  next
    case (Raw t c bs src)
    then have p: "paired (r_active st) evs" using Cons.prems(1) by simp
    have "closing (r_active st) (e # evs) = closing (r_active st) evs"
      using Raw by (intro closing_skip) simp
    then show ?thesis
      using Cons.IH [OF p Cons.prems(2,3,4)] Cons.prems(5) Raw
      by (simp add: replay_Cons)
  qed
qed

lemma paired_matching:
  "paired opn evs \<Longrightarrow> map_of opn k = Some x \<Longrightarrow> matchingOff k evs \<noteq> None"
proof (induction opn evs rule: paired.induct)
  case (1 opn)
  then show ?case by simp
next
  case (2 opn t c n v src es)
  then have "k \<noteq> (c, n)" by auto
  then have "map_of (AList.update (c, n) (t, v) opn) k = Some x"
    using 2 by (simp add: update_conv')
  then show ?case using 2 by simp
next
  case (3 opn t c n src es)
  show ?case
  proof (cases "k = (c, n)")
    case True
    then show ?thesis by simp
  next
    case False
    then have "map_of (AList.delete (c, n) opn) k = Some x"
      using 3 by (simp add: delete_conv')
    then show ?thesis
      using 3 False by (auto split: option.splits)
  qed
qed simp_all

lemma paired_expected_length:
  "paired opn evs \<Longrightarrow> length (expectedNotes evs) = length (filter isNoteOn evs)"
proof (induction opn evs rule: paired.induct)
  case (2 opn t c n v src es)
  then have "map_of (AList.update (c, n) (t, v) opn) (c, n) = Some (t, v)"
    by (simp add: update_conv')
  then have "matchingOff (c, n) es \<noteq> None"
    using 2 paired_matching by (metis paired.simps(2))
  then show ?case using 2 by (auto simp: closeOne_def)
next
  case (3 opn t c n src es)
  then show ?case by (auto split: option.splits)
qed simp_all

text \<open>
  C4 as stated fails. When a key is struck twice before it is released, the second
  note-on replaces the first in the map of active notes, the first note-off closes that
  one note and the second note-off finds nothing: two NoteOn/NoteOff pairs give one note.
  And a pair whose note-off has the time of its note-on gives no note at all.
\<close>

theorem pairs_counterexample:
  "reconstructNotes False overlapping 0 30 =
     [(TrackMain, [\<lparr>ni_ch = 1, ni_note = Num 60, startMs = 10, endMs = 20, ni_vel = 90\<rparr>])] \<and>
   length (filter isNoteOn overlapping) = 2 \<and>
   reconstructNotes False [NoteOn 5 1 (Num 60) 100 dev, NoteOff 5 1 (Num 60) dev] 0 10 = []"
  by (simp add: overlapping_def reconstructNotes_def allNotes_def replay_def r_init_def
      closeNote_def pushNote_def closeOpen_def addToTrack_def trackKeyFor_def Let_def)

text \<open>
  C4, amended. For every event sequence made of NoteOn/NoteOff pairs with no sustain
  activity in which a key is not struck again before it is released and every note-off
  comes strictly later than its note-on, the reconstruction over a window that holds all
  the events yields exactly one note per NoteOn event: the notes of all tracks together
  are the expected ones, each from the time of its note-on to the time of its matching
  note-off.
\<close>

theorem paired_notes_reconstructed:
  assumes "paired [] evs" and "\<forall>e \<in> set evs. ws \<le> ev_t e \<and> ev_t e \<le> we"
  shows "mset (concat (map snd (reconstructNotes grp evs ws we))) = mset (expectedNotes evs) \<and>
         length (concat (map snd (reconstructNotes grp evs ws we))) =
           length (filter isNoteOn evs)"
proof -
  have "paired (r_active r_init) evs" "\<forall>c. r_sustain r_init c \<noteq> Some True"
    "distinct (map fst (r_active r_init))" "\<forall>p \<in> set (r_active r_init). ws \<le> fst (snd p)"
    using assms(1) by (simp_all add: r_init_def)
  from replay_paired [OF this assms(2)]
  have fin: "r_active (replay ws we evs r_init) = []"
    "mset (r_notes (replay ws we evs r_init)) = mset (expectedNotes evs)"
    by (simp_all add: r_init_def closing_def)
  have "allNotes evs ws we = r_notes (replay ws we evs r_init)"
    by (simp add: allNotes_def Let_def fin(1) closeOpen_def)
  then have m: "mset (concat (map snd (reconstructNotes grp evs ws we))) =
      mset (expectedNotes evs)"
    by (simp add: reconstructNotes_mset fin(2))
  then have "size (mset (concat (map snd (reconstructNotes grp evs ws we)))) =
      size (mset (expectedNotes evs))"
    by simp
  then have "length (concat (map snd (reconstructNotes grp evs ws we))) =
      length (expectedNotes evs)"
    by (simp only: size_mset)
  then show ?thesis
    using m paired_expected_length [OF assms(1)] by simp
qed

theorem paired_notes_reconstructed_witness:
  "paired [] twoPairs \<and>
   mset (concat (map snd (reconstructNotes False twoPairs 0 30))) =
     {#\<lparr>ni_ch = 1, ni_note = Num 60, startMs = 0, endMs = 20, ni_vel = 100\<rparr>,
       \<lparr>ni_ch = 1, ni_note = Num 64, startMs = 10, endMs = 30, ni_vel = 90\<rparr>#} \<and>
   length (concat (map snd (reconstructNotes False twoPairs 0 30))) = 2"
proof -
  have p: "paired [] twoPairs"
    by (simp add: twoPairs_def)
  have w: "\<forall>e \<in> set twoPairs. 0 \<le> ev_t e \<and> ev_t e \<le> 30"
    by (simp add: twoPairs_def)
  have e: "expectedNotes twoPairs =
      [\<lparr>ni_ch = 1, ni_note = Num 60, startMs = 0, endMs = 20, ni_vel = 100\<rparr>,
       \<lparr>ni_ch = 1, ni_note = Num 64, startMs = 10, endMs = 30, ni_vel = 90\<rparr>]"
    by (simp add: twoPairs_def closeOne_def)
  have n: "length (filter isNoteOn twoPairs) = 2"
    by (simp add: twoPairs_def)
  show ?thesis
    using paired_notes_reconstructed [OF p w, of False] p e n by simp
qed

end
